theory Spec2Isabelle
  imports Main "HOL-Library.Word" "HOL-Library.Monad_Syntax" "HOL-Library.Multiset"
begin

unbundle bit_operations_syntax

section \<open>The hash map of src/libsampler/hashmap.h\<close>

text \<open>
  \<^verbatim>\<open>HashMapImpl\<close> is an open-addressing hash table with linear probing. Keys and values
  are \<^verbatim>\<open>void*\<close>; a slot whose key is \<^verbatim>\<open>NULL\<close> is empty. Pointers to keys and values are
  modelled by their addresses, \<^verbatim>\<open>NULL\<close> being address 0. A pointer \<^verbatim>\<open>Entry*\<close> into the
  backing array is modelled by the index of the slot it points to. A function that can
  fail an assertion (\<^verbatim>\<open>DCHECK\<close>, \<^verbatim>\<open>CHECK\<close>), read outside the array or loop forever returns
  an option: \<open>None\<close> stands for all three.
\<close>

subsection \<open>Data\<close>

type_synonym ptr = nat

abbreviation (input) NULL :: ptr where
  "NULL \<equiv> 0"

text \<open>\<^verbatim>\<open>struct Entry { void* key; void* value; uint32_t hash; int order; }\<close>\<close>

record Entry =
  key :: ptr
  val :: ptr
  hash :: "32 word"
  order :: int

text \<open>The private members \<^verbatim>\<open>match_\<close>, \<^verbatim>\<open>map_\<close>, \<^verbatim>\<open>capacity_\<close> and \<^verbatim>\<open>occupancy_\<close> of
  \<^verbatim>\<open>HashMapImpl\<close> (a name cannot end with an underscore here, whence the \<open>m\<close>).
  \<open>map_m\<close> holds the \<open>capacity_m\<close> entries of the backing array.\<close>

record HashMapImpl =
  match_m :: "ptr \<Rightarrow> ptr \<Rightarrow> bool"
  map_m :: "Entry list"
  capacity_m :: "32 word"
  occupancy_m :: "32 word"

definition kDefaultHashMapCapacity :: "32 word" where
  "kDefaultHashMapCapacity = 8"

definition PointersMatch :: "ptr \<Rightarrow> ptr \<Rightarrow> bool" where
  "PointersMatch key1 key2 = (key1 = key2)"

definition occupancy :: "HashMapImpl \<Rightarrow> 32 word" where
  "occupancy t = occupancy_m t"

definition capacity :: "HashMapImpl \<Rightarrow> 32 word" where
  "capacity t = capacity_m t"

text \<open>Modelled from the spec: \<^verbatim>\<open>base::bits::IsPowerOfTwo32\<close> is declared in
  \<^verbatim>\<open>src/base/bits.h\<close>, which is not among the sources. The spec says of it only that the
  capacity "is a power of two (and thus must not be 0)".\<close>

definition IsPowerOfTwo32 :: "32 word \<Rightarrow> bool" where
  "IsPowerOfTwo32 w = (\<exists>n \<in> {0..<32}. w = 2 ^ n)"

subsection \<open>Probing\<close>

text \<open>The initial position \<^verbatim>\<open>hash & (capacity_ - 1)\<close> of a hash, as a slot.\<close>

definition ideal :: "32 word \<Rightarrow> 32 word \<Rightarrow> nat" where
  "ideal cap h = unat (h AND (cap - 1))"

text \<open>The loop of \<^verbatim>\<open>Probe\<close>: \<open>p\<close> is the slot looked at, \<open>c\<close> the capacity (so that
  \<^verbatim>\<open>map_end()\<close> is slot \<open>c\<close>).\<close>

partial_function (option) probe_loop ::
  "(ptr \<Rightarrow> ptr \<Rightarrow> bool) \<Rightarrow> nat \<Rightarrow> Entry list \<Rightarrow> ptr \<Rightarrow> 32 word \<Rightarrow> nat \<Rightarrow> nat option" where
  "probe_loop m c es k h p =
     (if length es \<le> p then None
      else if key (es ! p) \<noteq> NULL \<and> (h \<noteq> hash (es ! p) \<or> \<not> m k (key (es ! p)))
      then probe_loop m c es k h (if c \<le> p + 1 then 0 else p + 1)
      else Some p)"

declare probe_loop.simps [code]

definition Probe :: "HashMapImpl \<Rightarrow> ptr \<Rightarrow> 32 word \<Rightarrow> nat option" where
  "Probe t k h =
     (if k = NULL then None
      else if \<not> IsPowerOfTwo32 (capacity_m t) then None
      else let p = ideal (capacity_m t) h in
        if \<not> p < unat (capacity_m t) then None
        else if \<not> occupancy_m t < capacity_m t then None
        else probe_loop (match_m t) (unat (capacity_m t)) (map_m t) k h p)"

subsection \<open>Lookup\<close>

text \<open>\<open>Some None\<close> is the result \<^verbatim>\<open>NULL\<close>, \<open>Some (Some p)\<close> the entry in slot \<open>p\<close>.\<close>

definition Lookup :: "HashMapImpl \<Rightarrow> ptr \<Rightarrow> 32 word \<Rightarrow> nat option option" where
  "Lookup t k h =
     do { p \<leftarrow> Probe t k h;
          Some (if key (map_m t ! p) \<noteq> NULL then Some p else None) }"

subsection \<open>Clear and Initialize\<close>

definition Clear :: "HashMapImpl \<Rightarrow> HashMapImpl" where
  "Clear t = t\<lparr>map_m := map (\<lambda>e. e\<lparr>key := NULL\<rparr>) (map_m t), occupancy_m := 0\<rparr>"

text \<open>Modelled from the spec: \<^verbatim>\<open>Malloced::New\<close> is declared in \<^verbatim>\<open>src/libsampler/utils.h\<close>,
  which is not among the sources. It returns memory whose contents are not specified;
  \<^verbatim>\<open>Clear\<close> then sets every key to \<^verbatim>\<open>NULL\<close>, and no function reads another field of a slot
  whose key is \<^verbatim>\<open>NULL\<close>. The model fills the new array with zeros. Allocation failure is
  outside the model.\<close>

definition Malloced_New :: "32 word \<Rightarrow> Entry list" where
  "Malloced_New n = replicate (unat n) \<lparr>key = NULL, val = NULL, hash = 0, order = 0\<rparr>"

definition Initialize :: "HashMapImpl \<Rightarrow> 32 word \<Rightarrow> HashMapImpl option" where
  "Initialize t cap =
     (if \<not> IsPowerOfTwo32 cap then None
      else Some (Clear (t\<lparr>map_m := Malloced_New cap, capacity_m := cap\<rparr>)))"

text \<open>The constructor \<^verbatim>\<open>HashMapImpl(match, capacity)\<close>. The members it does not set before
  \<^verbatim>\<open>Initialize\<close> are overwritten there.\<close>

definition HashMapImpl_new :: "(ptr \<Rightarrow> ptr \<Rightarrow> bool) \<Rightarrow> 32 word \<Rightarrow> HashMapImpl option" where
  "HashMapImpl_new m cap =
     Initialize \<lparr>match_m = m, map_m = [], capacity_m = 0, occupancy_m = 0\<rparr> cap"

subsection \<open>LookupOrInsert and Resize\<close>

text \<open>The client's (and \<^verbatim>\<open>Resize\<close>'s) writes through a returned \<^verbatim>\<open>Entry*\<close>.\<close>

definition set_value :: "HashMapImpl \<Rightarrow> nat \<Rightarrow> ptr \<Rightarrow> HashMapImpl" where
  "set_value t p v = t\<lparr>map_m := (map_m t)[p := (map_m t ! p)\<lparr>val := v\<rparr>]\<rparr>"

definition set_order :: "HashMapImpl \<Rightarrow> nat \<Rightarrow> int \<Rightarrow> HashMapImpl" where
  "set_order t p n = t\<lparr>map_m := (map_m t)[p := (map_m t ! p)\<lparr>order := n\<rparr>]\<rparr>"

text \<open>The loop of \<^verbatim>\<open>Resize\<close> over the old array, from the slot \<^verbatim>\<open>p\<close> on: the list is what is
  left of the old array, \<open>n\<close> the number of entries still to move, \<open>t\<close> the table being
  filled, \<open>ins\<close> the function called for \<^verbatim>\<open>LookupOrInsert\<close>. Reading past the end of the old
  array is an error.\<close>

fun rehash ::
  "(HashMapImpl \<Rightarrow> ptr \<Rightarrow> 32 word \<Rightarrow> (HashMapImpl \<times> nat) option) \<Rightarrow>
   Entry list \<Rightarrow> 32 word \<Rightarrow> HashMapImpl \<Rightarrow> HashMapImpl option" where
  "rehash ins [] n t = (if 0 < n then None else Some t)"
| "rehash ins (e # es) n t =
     (if 0 < n then
        (if key e \<noteq> NULL then
           do { r \<leftarrow> ins t (key e) (hash e);
                rehash ins es (n - 1)
                  (set_order (set_value (fst r) (snd r) (val e)) (snd r) (order e)) }
         else rehash ins es n t)
      else Some t)"

definition Resize_with ::
  "(HashMapImpl \<Rightarrow> ptr \<Rightarrow> 32 word \<Rightarrow> (HashMapImpl \<times> nat) option) \<Rightarrow>
   HashMapImpl \<Rightarrow> HashMapImpl option" where
  "Resize_with ins t =
     do { t0 \<leftarrow> Initialize t (capacity_m t * 2);
          rehash ins (map_m t) (occupancy_m t) t0 }"

lemma rehash_mono [partial_function_mono]:
  assumes "\<And>t k h. mono_option (\<lambda>f. F f t k h)"
  shows "mono_option (\<lambda>f. rehash (F f) es n t)"
proof (induction es arbitrary: n t)
  case Nil
  show ?case by (simp add: option.const_mono)
next
  case (Cons e es)
  show ?case
    unfolding rehash.simps
    by (intro partial_function_mono assms Cons.IH)
qed

lemma Resize_with_mono [partial_function_mono]:
  assumes "\<And>t k h. mono_option (\<lambda>f. F f t k h)"
  shows "mono_option (\<lambda>f. Resize_with (F f) t)"
  unfolding Resize_with_def
  by (intro partial_function_mono assms)

text \<open>The test \<^verbatim>\<open>occupancy_ + occupancy_ / 4 >= capacity_\<close> of \<^verbatim>\<open>LookupOrInsert\<close>, on
  \<^verbatim>\<open>uint32_t\<close>.\<close>

definition grow_trigger :: "32 word \<Rightarrow> 32 word \<Rightarrow> bool" where
  "grow_trigger occ cap = (occ + occ div 4 \<ge> cap)"

text \<open>The entry \<^verbatim>\<open>LookupOrInsert\<close> writes into the empty slot it found.\<close>

definition insert_at :: "HashMapImpl \<Rightarrow> nat \<Rightarrow> ptr \<Rightarrow> 32 word \<Rightarrow> HashMapImpl" where
  "insert_at t p k h =
     t\<lparr>map_m := (map_m t)[p := \<lparr>key = k, val = NULL, hash = h, order = sint (occupancy_m t)\<rparr>],
       occupancy_m := occupancy_m t + 1\<rparr>"

partial_function (option) LookupOrInsert ::
  "HashMapImpl \<Rightarrow> ptr \<Rightarrow> 32 word \<Rightarrow> (HashMapImpl \<times> nat) option" where
  "LookupOrInsert t k h =
     do { p \<leftarrow> Probe t k h;
          if key (map_m t ! p) \<noteq> NULL then Some (t, p)
          else
            (let t1 = insert_at t p k h in
             if grow_trigger (occupancy_m t1) (capacity_m t1) then
               do { t2 \<leftarrow> Resize_with LookupOrInsert t1;
                    p' \<leftarrow> Probe t2 k h;
                    Some (t2, p') }
             else Some (t1, p)) }"

declare LookupOrInsert.simps [code]

definition Resize :: "HashMapImpl \<Rightarrow> HashMapImpl option" where
  "Resize t = Resize_with LookupOrInsert t"

subsection \<open>Remove\<close>

text \<open>The test of the loop of \<^verbatim>\<open>Remove\<close>, on the slots \<open>p\<close>, \<open>q\<close> and \<open>r\<close>.\<close>

definition move_cond :: "nat \<Rightarrow> nat \<Rightarrow> nat \<Rightarrow> bool" where
  "move_cond p q r = ((q > p \<and> (r \<le> p \<or> r > q)) \<or> (q < p \<and> (r \<le> p \<and> r > q)))"

text \<open>The loop of \<^verbatim>\<open>Remove\<close>; it returns the array and the slot \<open>p\<close> to clear.\<close>

partial_function (option) remove_loop ::
  "32 word \<Rightarrow> Entry list \<Rightarrow> nat \<Rightarrow> nat \<Rightarrow> (Entry list \<times> nat) option" where
  "remove_loop cap es p q =
     (let q' = (if q + 1 = unat cap then 0 else q + 1) in
      if length es \<le> q' then None
      else if key (es ! q') = NULL then Some (es, p)
      else
        (let r = ideal cap (hash (es ! q')) in
         if move_cond p q' r then remove_loop cap (es[p := es ! q']) q' q'
         else remove_loop cap es p q'))"

declare remove_loop.simps [code]

definition Remove :: "HashMapImpl \<Rightarrow> ptr \<Rightarrow> 32 word \<Rightarrow> (HashMapImpl \<times> ptr) option" where
  "Remove t k h =
     do { p \<leftarrow> Probe t k h;
          if key (map_m t ! p) = NULL then Some (t, NULL)
          else
            (let v = val (map_m t ! p) in
             if \<not> occupancy_m t < capacity_m t then None
             else
               do { r \<leftarrow> remove_loop (capacity_m t) (map_m t) p p;
                    Some (t\<lparr>map_m := (fst r)[snd r := (fst r ! snd r)\<lparr>key := NULL\<rparr>],
                            occupancy_m := occupancy_m t - 1\<rparr>, v) }) }"

subsection \<open>Iteration\<close>

text \<open>The loop of \<^verbatim>\<open>Next\<close>, from the slot \<open>i\<close> on.\<close>

function next_loop :: "Entry list \<Rightarrow> nat \<Rightarrow> nat \<Rightarrow> nat option option" where
  "next_loop es c i =
     (if i < c then
        (if length es \<le> i then None
         else if key (es ! i) \<noteq> NULL then Some (Some i)
         else next_loop es c (i + 1))
      else Some None)"
  by pat_completeness auto

termination
  by (relation "measure (\<lambda>(es, c, i). c - i)") auto

declare next_loop.simps [simp del]

text \<open>The cursor of \<^verbatim>\<open>Next\<close> is a slot, or \<^verbatim>\<open>map_ - 1\<close>: an integer from \<open>-1\<close> on.\<close>

definition Next :: "HashMapImpl \<Rightarrow> int \<Rightarrow> nat option option" where
  "Next t p =
     (if \<not> (-1 \<le> p \<and> p < int (unat (capacity_m t))) then None
      else next_loop (map_m t) (unat (capacity_m t)) (nat (p + 1)))"

definition Start :: "HashMapImpl \<Rightarrow> nat option option" where
  "Start t = Next t (-1)"

subsection \<open>The properties of the specification\<close>

text \<open>The slots from \<open>a\<close> up to, and without, \<open>b\<close> in a table of \<open>c\<close> slots, walking forward and
  wrapping at the end: what a probe that starts at \<open>a\<close> looks at before it reaches \<open>b\<close>.\<close>

definition between :: "nat \<Rightarrow> nat \<Rightarrow> nat \<Rightarrow> nat set" where
  "between c a b = (if a \<le> b then {a..<b} else {a..<c} \<union> {0..<b})"

text \<open>The number of steps from \<open>a\<close> forward to \<open>b\<close>.\<close>

definition dist :: "nat \<Rightarrow> nat \<Rightarrow> nat \<Rightarrow> nat" where
  "dist c a b = (if a \<le> b then b - a else c - a + b)"

text \<open>The slots after \<open>p\<close> up to and with \<open>q\<close>, walking forward and wrapping: the cyclic
  interval \<open>(p, q]\<close>.\<close>

definition after_upto :: "nat \<Rightarrow> nat \<Rightarrow> nat \<Rightarrow> nat set" where
  "after_upto c p q = (if p \<le> q then {p<..q} else {p<..<c} \<union> {0..q})"

text \<open>The slots strictly between \<open>p\<close> and \<open>q\<close>, walking forward and wrapping: the cyclic
  interval \<open>(p, q)\<close>, in the words of the specification.\<close>

definition strictly_between :: "nat \<Rightarrow> nat \<Rightarrow> nat \<Rightarrow> nat set" where
  "strictly_between c p q = (if p \<le> q then {p<..<q} else {p<..<c} \<union> {0..<q})"

text \<open>The slot that follows \<open>q\<close> (\<^verbatim>\<open>q = q + 1; if (q == map_end()) q = map_;\<close>).\<close>

definition next_slot :: "nat \<Rightarrow> nat \<Rightarrow> nat" where
  "next_slot c q = (if q + 1 = c then 0 else q + 1)"

text \<open>Where the loop of \<^verbatim>\<open>Probe\<close> stops: at an empty slot, or at an entry with the hash and a
  matching key.\<close>

definition stops :: "(ptr \<Rightarrow> ptr \<Rightarrow> bool) \<Rightarrow> Entry list \<Rightarrow> ptr \<Rightarrow> 32 word \<Rightarrow> nat \<Rightarrow> bool" where
  "stops m es k h j = (key (es ! j) = NULL \<or> (h = hash (es ! j) \<and> m k (key (es ! j))))"

text \<open>Invariant 4 for the entry in slot \<open>i\<close>: no slot from its initial position up to
  \<open>i\<close> is empty.\<close>

definition reachable :: "32 word \<Rightarrow> Entry list \<Rightarrow> nat \<Rightarrow> bool" where
  "reachable cap es i =
     (\<forall>j \<in> between (unat cap) (ideal cap (hash (es ! i))) i. key (es ! j) \<noteq> NULL)"

definition all_reachable :: "32 word \<Rightarrow> Entry list \<Rightarrow> bool" where
  "all_reachable cap es = (\<forall>i \<in> {0..<length es}. key (es ! i) \<noteq> NULL \<longrightarrow> reachable cap es i)"

text \<open>No two entries of a collection have the same hash and matching keys.\<close>

definition unique_keys :: "(ptr \<Rightarrow> ptr \<Rightarrow> bool) \<Rightarrow> Entry multiset \<Rightarrow> bool" where
  "unique_keys m M =
     (\<forall>e \<in># M. \<forall>e' \<in># M - {#e#}. \<not> (hash e = hash e' \<and> m (key e) (key e')))"

text \<open>The match function is "a caller-supplied equality predicate over two keys".\<close>

definition equality_predicate :: "(ptr \<Rightarrow> ptr \<Rightarrow> bool) \<Rightarrow> bool" where
  "equality_predicate m =
     ((\<forall>a. m a a) \<and> (\<forall>a b. m a b \<longrightarrow> m b a) \<and> (\<forall>a b c. m a b \<longrightarrow> m b c \<longrightarrow> m a c))"

text \<open>The entries of the table, in slot order.\<close>

definition entries :: "HashMapImpl \<Rightarrow> Entry list" where
  "entries t = filter (\<lambda>e. key e \<noteq> NULL) (map_m t)"

text \<open>The shape of a table: the array has \<open>capacity_m\<close> slots, a power of two of them;
  \<open>occupancy_m\<close> counts the entries; every entry is reachable from its initial position
  (invariant 4); the keys are unique under the equality predicate.\<close>

definition hashmap_wf :: "HashMapImpl \<Rightarrow> bool" where
  "hashmap_wf t =
     (equality_predicate (match_m t) \<and>
      IsPowerOfTwo32 (capacity_m t) \<and>
      length (map_m t) = unat (capacity_m t) \<and>
      unat (occupancy_m t) = length (entries t) \<and>
      all_reachable (capacity_m t) (map_m t) \<and>
      unique_keys (match_m t) (mset (entries t)))"

text \<open>The load factor the growth test keeps: the test is false of the table.\<close>

definition load_ok :: "HashMapImpl \<Rightarrow> bool" where
  "load_ok t = (unat (occupancy_m t) + unat (occupancy_m t) div 4 < unat (capacity_m t))"

definition hashmap_inv :: "HashMapImpl \<Rightarrow> bool" where
  "hashmap_inv t = (hashmap_wf t \<and> load_ok t)"

text \<open>What \<^verbatim>\<open>Probe\<close> asserts before its loop, and that the array has \<open>capacity_m\<close> slots.\<close>

definition probe_pre :: "HashMapImpl \<Rightarrow> ptr \<Rightarrow> bool" where
  "probe_pre t k =
     (k \<noteq> NULL \<and> IsPowerOfTwo32 (capacity_m t) \<and> length (map_m t) = unat (capacity_m t) \<and>
      occupancy_m t < capacity_m t)"

subsection \<open>Clients of the table\<close>

text \<open>Writing the entry \<open>e\<close> into the slot \<open>q\<close> and counting it.\<close>

definition place :: "HashMapImpl \<Rightarrow> nat \<Rightarrow> Entry \<Rightarrow> HashMapImpl" where
  "place t q e = t\<lparr>map_m := (map_m t)[q := e], occupancy_m := occupancy_m t + 1\<rparr>"

text \<open>The tables a client can have: what the constructor returns for an equality predicate,
  and what \<^verbatim>\<open>LookupOrInsert\<close>, \<^verbatim>\<open>Remove\<close>, \<^verbatim>\<open>Clear\<close> and a write of a value through an
  \<^verbatim>\<open>Entry*\<close> leave. (\<^verbatim>\<open>Lookup\<close>, \<^verbatim>\<open>Start\<close> and \<^verbatim>\<open>Next\<close> are \<^verbatim>\<open>const\<close>.)\<close>

inductive reach_table :: "HashMapImpl \<Rightarrow> bool" where
  construct: "equality_predicate m \<Longrightarrow> HashMapImpl_new m c = Some t \<Longrightarrow> reach_table t"
| lookup_or_insert: "reach_table t \<Longrightarrow> LookupOrInsert t k h = Some (t', p) \<Longrightarrow> reach_table t'"
| remove: "reach_table t \<Longrightarrow> Remove t k h = Some (t', v) \<Longrightarrow> reach_table t'"
| clear: "reach_table t \<Longrightarrow> reach_table (Clear t)"
| write_value: "reach_table t \<Longrightarrow> reach_table (set_value t p v)"

text \<open>The loop \<^verbatim>\<open>for (Entry* p = map.Start(); p != NULL; p = map.Next(p))\<close> of a client, from
  the result \<open>r\<close> of \<^verbatim>\<open>Start\<close> or \<^verbatim>\<open>Next\<close> on: the slots it visits, in the order of the visits.\<close>

partial_function (option) iterate_from :: "HashMapImpl \<Rightarrow> nat option option \<Rightarrow> nat list option" where
  "iterate_from t r =
     (case r of
        None \<Rightarrow> None
      | Some None \<Rightarrow> Some []
      | Some (Some i) \<Rightarrow> do { rest \<leftarrow> iterate_from t (Next t (int i)); Some (i # rest) })"

declare iterate_from.simps [code]

definition iterate :: "HashMapImpl \<Rightarrow> nat list option" where
  "iterate t = iterate_from t (Start t)"

text \<open>The slots from \<open>i\<close> on that hold an entry.\<close>

definition live_from :: "HashMapImpl \<Rightarrow> nat \<Rightarrow> nat list" where
  "live_from t i = filter (\<lambda>j. key (map_m t ! j) \<noteq> NULL) [i..<unat (capacity_m t)]"

text \<open>A client that calls \<^verbatim>\<open>LookupOrInsert\<close> for each key and hash of a list in turn and, where
  the list gives a value, writes it through the entry returned
  (\<^verbatim>\<open>map.LookupOrInsert(key, hash)->value = v\<close>).\<close>

fun client_inserts :: "HashMapImpl \<Rightarrow> (ptr \<times> 32 word \<times> ptr option) list \<Rightarrow> HashMapImpl option" where
  "client_inserts t [] = Some t"
| "client_inserts t ((k, h, v) # ks) =
     do { r \<leftarrow> LookupOrInsert t k h;
          client_inserts (case v of None \<Rightarrow> fst r | Some x \<Rightarrow> set_value (fst r) (snd r) x) ks }"

definition insert_keys :: "HashMapImpl \<Rightarrow> (ptr \<times> 32 word) list \<Rightarrow> HashMapImpl option" where
  "insert_keys t ks = client_inserts t (map (\<lambda>(k, h). (k, h, None)) ks)"

text \<open>No two of the keys and hashes of a list have the same hash and matching keys.\<close>

definition distinct_pairs :: "(ptr \<Rightarrow> ptr \<Rightarrow> bool) \<Rightarrow> (ptr \<times> 32 word) list \<Rightarrow> bool" where
  "distinct_pairs m ks = sorted_wrt (\<lambda>a b. \<not> (snd a = snd b \<and> m (fst a) (fst b))) ks"

text \<open>The key, hash and value of an entry, and those a client asks for.\<close>

definition content :: "Entry \<Rightarrow> ptr \<times> 32 word \<times> ptr" where
  "content e = (key e, hash e, val e)"

definition asked :: "ptr \<times> 32 word \<times> ptr option \<Rightarrow> ptr \<times> 32 word \<times> ptr" where
  "asked a = (fst a, fst (snd a), (case snd (snd a) of None \<Rightarrow> NULL | Some x \<Rightarrow> x))"

subsection \<open>Example tables\<close>

text \<open>A table of 8 slots with two entries, each in its initial position.\<close>

definition two_at_home :: "Entry list" where
  "two_at_home =
     [\<lparr>key = 10, val = 0, hash = 0, order = 0\<rparr>, \<lparr>key = 11, val = 0, hash = 1, order = 1\<rparr>,
      \<lparr>key = 0, val = 0, hash = 0, order = 0\<rparr>, \<lparr>key = 0, val = 0, hash = 0, order = 0\<rparr>,
      \<lparr>key = 0, val = 0, hash = 0, order = 0\<rparr>, \<lparr>key = 0, val = 0, hash = 0, order = 0\<rparr>,
      \<lparr>key = 0, val = 0, hash = 0, order = 0\<rparr>, \<lparr>key = 0, val = 0, hash = 0, order = 0\<rparr>]"

text \<open>A table of 8 slots with two entries of initial position 0.\<close>

definition two_colliding :: "Entry list" where
  "two_colliding =
     [\<lparr>key = 10, val = 0, hash = 0, order = 0\<rparr>, \<lparr>key = 11, val = 0, hash = 8, order = 1\<rparr>,
      \<lparr>key = 0, val = 0, hash = 0, order = 0\<rparr>, \<lparr>key = 0, val = 0, hash = 0, order = 0\<rparr>,
      \<lparr>key = 0, val = 0, hash = 0, order = 0\<rparr>, \<lparr>key = 0, val = 0, hash = 0, order = 0\<rparr>,
      \<lparr>key = 0, val = 0, hash = 0, order = 0\<rparr>, \<lparr>key = 0, val = 0, hash = 0, order = 0\<rparr>]"

text \<open>The table of the scenario of the specification: the keys 10, 11 and 12 inserted with
  the hashes 0, 8 and 16, which collide at slot 0 of 8; the values of the first and the
  third set to 100 and 102, the second left \<^verbatim>\<open>NULL\<close>.\<close>

definition abc_table :: HashMapImpl where
  "abc_table =
     \<lparr>match_m = PointersMatch,
      map_m =
        [\<lparr>key = 10, val = 100, hash = 0, order = 0\<rparr>, \<lparr>key = 11, val = NULL, hash = 8, order = 1\<rparr>,
         \<lparr>key = 12, val = 102, hash = 16, order = 2\<rparr>, \<lparr>key = NULL, val = NULL, hash = 0, order = 0\<rparr>,
         \<lparr>key = NULL, val = NULL, hash = 0, order = 0\<rparr>, \<lparr>key = NULL, val = NULL, hash = 0, order = 0\<rparr>,
         \<lparr>key = NULL, val = NULL, hash = 0, order = 0\<rparr>, \<lparr>key = NULL, val = NULL, hash = 0, order = 0\<rparr>],
      capacity_m = 8, occupancy_m = 3\<rparr>"

text \<open>The table the constructor returns for \<^verbatim>\<open>PointersMatch\<close> and the default capacity.\<close>

definition empty8 :: HashMapImpl where
  "empty8 =
     \<lparr>match_m = PointersMatch,
      map_m = replicate 8 \<lparr>key = NULL, val = NULL, hash = 0, order = 0\<rparr>,
      capacity_m = 8, occupancy_m = 0\<rparr>"

text \<open>The keys and hashes of the scenario.\<close>

definition abc_keys :: "(ptr \<times> 32 word) list" where
  "abc_keys = [(10, 0), (11, 8), (12, 16)]"

text \<open>A table of capacity 8 with six entries: the next insertion makes it grow.\<close>

definition six_table :: HashMapImpl where
  "six_table =
     \<lparr>match_m = PointersMatch,
      map_m =
        [\<lparr>key = 10, val = 100, hash = 0, order = 0\<rparr>, \<lparr>key = 11, val = 101, hash = 8, order = 1\<rparr>,
         \<lparr>key = 12, val = NULL, hash = 16, order = 2\<rparr>, \<lparr>key = 13, val = 103, hash = 1, order = 3\<rparr>,
         \<lparr>key = 14, val = 104, hash = 2, order = 4\<rparr>, \<lparr>key = 15, val = 105, hash = 3, order = 5\<rparr>,
         \<lparr>key = NULL, val = NULL, hash = 0, order = 0\<rparr>, \<lparr>key = NULL, val = NULL, hash = 0, order = 0\<rparr>],
      capacity_m = 8, occupancy_m = 6\<rparr>"

text \<open>Seven insertions, six of them with a value.\<close>

definition seven_inserts :: "(ptr \<times> 32 word \<times> ptr option) list" where
  "seven_inserts =
     [(10, 0, Some 100), (11, 8, Some 101), (12, 16, None), (13, 1, Some 103),
      (14, 2, Some 104), (15, 3, Some 105), (16, 4, Some 106)]"

section \<open>Arithmetic of the table\<close>

lemma unat_2p32: "n < 32 \<Longrightarrow> unat ((2::32 word) ^ n) = 2 ^ n"
proof -
  assume n: "n < 32"
  have "(2::32 word) ^ n = of_nat (2 ^ n)" by simp
  then have "unat ((2::32 word) ^ n) = 2 ^ n mod 2 ^ 32" by (simp only: unat_of_nat) simp
  moreover have "(2::nat) ^ n < 2 ^ 32" using n by (intro power_strict_increasing) simp_all
  ultimately show ?thesis by simp
qed

lemma IsPowerOfTwo32_unat: "IsPowerOfTwo32 w \<Longrightarrow> \<exists>n<32. unat w = 2 ^ n"
  by (auto simp: IsPowerOfTwo32_def unat_2p32)

lemma IsPowerOfTwo32_le: "IsPowerOfTwo32 w \<Longrightarrow> unat w \<le> 2 ^ 31"
proof -
  assume "IsPowerOfTwo32 w"
  then obtain n where n: "n < 32" "unat w = 2 ^ n" using IsPowerOfTwo32_unat by blast
  then have "n \<le> 31" by simp
  then have "(2::nat) ^ n \<le> 2 ^ 31" by (rule power_increasing) simp
  with n show ?thesis by simp
qed

lemma IsPowerOfTwo32_nonzero: "IsPowerOfTwo32 w \<Longrightarrow> w \<noteq> 0"
  using IsPowerOfTwo32_unat[of w] by (auto simp: unat_eq_zero[symmetric] simp del: unat_eq_zero)

lemma IsPowerOfTwo32_8: "IsPowerOfTwo32 8"
  unfolding IsPowerOfTwo32_def by (rule bexI[of _ 3]) simp_all

lemma trigger_nat: "(c::nat) \<le> a + a div 4 \<longleftrightarrow> 4 * c \<le> 5 * a"
  by linarith

lemma grow_trigger_unat:
  assumes "unat occ + unat occ div 4 < 2 ^ 32"
  shows "grow_trigger occ cap \<longleftrightarrow> unat cap \<le> unat occ + unat occ div 4"
proof -
  have d: "unat (occ div 4) = unat occ div 4" by (simp add: unat_div)
  have "unat (occ + occ div 4) = unat occ + unat (occ div 4)"
    using assms d by (simp add: unat_add_lem[THEN iffD1])
  then show ?thesis by (simp add: grow_trigger_def word_le_nat_alt d)
qed

text \<open>
  C9. For an occupancy \<open>oc\<close> and a capacity \<open>c\<close> that is a power of two, the growth test
  \<^verbatim>\<open>occupancy_ + occupancy_ / 4 >= capacity_\<close> of \<^verbatim>\<open>LookupOrInsert\<close> holds if and only if
  the load factor \<open>oc / c\<close> is at least 0.8, that is \<open>5 * oc \<ge> 4 * c\<close>. An occupancy counts
  slots of the table, so it is at most the capacity; the sum of the test then fits 32 bits.
\<close>

theorem C9_grow_trigger_iff_load_factor:
  assumes "IsPowerOfTwo32 c" and "oc \<le> c"
  shows "grow_trigger oc c \<longleftrightarrow> 4 * unat c \<le> 5 * unat oc"
proof -
  have "unat oc \<le> unat c" using assms(2) by (simp add: word_le_nat_alt)
  moreover have "unat c \<le> 2 ^ 31" using assms(1) by (rule IsPowerOfTwo32_le)
  ultimately have "unat oc + unat oc div 4 < 2 ^ 32" by simp
  then have "grow_trigger oc c \<longleftrightarrow> unat c \<le> unat oc + unat oc div 4"
    by (rule grow_trigger_unat)
  then show ?thesis by (simp only: trigger_nat)
qed

theorem C9_witness:
  "IsPowerOfTwo32 8 \<and> (7::32 word) \<le> 8 \<and> grow_trigger 7 8 \<and>
   4 * unat (8::32 word) \<le> 5 * unat (7::32 word) \<and>
   (6::32 word) \<le> 8 \<and> \<not> grow_trigger 6 8 \<and>
   \<not> 4 * unat (8::32 word) \<le> 5 * unat (6::32 word)"
  using C9_grow_trigger_iff_load_factor[of 8 7] C9_grow_trigger_iff_load_factor[of 8 6]
    IsPowerOfTwo32_8
  by simp

section \<open>The test of the removal loop\<close>

lemma ideal_less: "cap \<noteq> 0 \<Longrightarrow> ideal cap h < unat cap"
proof -
  assume c: "cap \<noteq> 0"
  have "h AND (cap - 1) \<le> cap - 1" by (rule word_and_le1)
  then have "unat (h AND (cap - 1)) \<le> unat (cap - 1)" by (simp add: word_le_nat_alt)
  moreover have "unat (cap - 1) < unat cap" using c
    by (metis unat_minus_one diff_less unat_gt_0 zero_less_one)
  ultimately show ?thesis by (simp add: ideal_def)
qed

lemma move_cond_iff:
  "p < c \<Longrightarrow> q < c \<Longrightarrow> r < c \<Longrightarrow> p \<noteq> q \<Longrightarrow> move_cond p q r \<longleftrightarrow> r \<notin> after_upto c p q"
  by (auto simp: move_cond_def after_upto_def)

lemma next_slot_less: "q < c \<Longrightarrow> next_slot c q < c"
  by (auto simp: next_slot_def)

lemma remove_loop_unfold:
  "remove_loop cap es p q =
     (let q' = next_slot (unat cap) q in
      if length es \<le> q' then None
      else if key (es ! q') = NULL then Some (es, p)
      else if move_cond p q' (ideal cap (hash (es ! q')))
        then remove_loop cap (es[p := es ! q']) q' q'
        else remove_loop cap es p q')"
  by (subst remove_loop.simps) (simp add: next_slot_def Let_def)

text \<open>
  C2, as stated, fails: with \<open>P\<close> slot 0 and \<open>Q\<close> slot 1, an entry at \<open>Q\<close> whose initial
  position \<open>R\<close> is \<open>Q\<close> itself is outside the interval strictly between \<open>P\<close> and \<open>Q\<close>, and
  the loop leaves it in place: it returns the array as it was.
\<close>

theorem C2_counterexample:
  "ideal 8 (hash (two_at_home ! 1)) = 1 \<and> 1 \<notin> strictly_between 8 0 1 \<and> \<not> move_cond 0 1 1 \<and>
   remove_loop 8 two_at_home 0 0 = Some (two_at_home, 0)"
  by code_simp

text \<open>
  C2, amended. In the loop of \<^verbatim>\<open>Remove\<close>, with \<open>p\<close> the slot to clear and \<open>q'\<close> the slot
  scanned (the one after \<open>q\<close>, another slot than \<open>p\<close>) holding an entry of initial position
  \<open>r\<close>: the entry is moved into slot \<open>p\<close>, and \<open>q'\<close> becomes the slot to clear, exactly when
  \<open>r\<close> is outside the cyclic interval after \<open>p\<close> up to and with \<open>q'\<close>; otherwise the array is
  left as it is and the scan goes on from \<open>q'\<close>.
\<close>

theorem C2_move_iff_outside_after_upto:
  assumes "cap \<noteq> 0" and "length es = unat cap" and "p < unat cap" and "q < unat cap"
    and "next_slot (unat cap) q \<noteq> p" and "key (es ! next_slot (unat cap) q) \<noteq> NULL"
  shows "(let q' = next_slot (unat cap) q; r = ideal cap (hash (es ! q')) in
      (move_cond p q' r \<longleftrightarrow> r \<notin> after_upto (unat cap) p q') \<and>
      remove_loop cap es p q =
        (if r \<notin> after_upto (unat cap) p q' then remove_loop cap (es[p := es ! q']) q' q'
         else remove_loop cap es p q'))"
proof -
  let ?q = "next_slot (unat cap) q"
  let ?r = "ideal cap (hash (es ! ?q))"
  have q: "?q < unat cap" using assms(4) by (rule next_slot_less)
  have r: "?r < unat cap" using assms(1) by (rule ideal_less)
  have m: "move_cond p ?q ?r \<longleftrightarrow> ?r \<notin> after_upto (unat cap) p ?q"
    using assms(3) q r assms(5) by (intro move_cond_iff) auto
  have "remove_loop cap es p q =
        (if ?r \<notin> after_upto (unat cap) p ?q then remove_loop cap (es[p := es ! ?q]) ?q ?q
         else remove_loop cap es p ?q)"
    using q assms(2,6) m by (subst remove_loop_unfold) (simp add: Let_def)
  with m show ?thesis by (simp add: Let_def)
qed

theorem C2_witness:
  "(8::32 word) \<noteq> 0 \<and> length two_colliding = unat (8::32 word) \<and> (0::nat) < unat (8::32 word) \<and>
   next_slot (unat (8::32 word)) 0 \<noteq> 0 \<and>
   key (two_colliding ! next_slot (unat (8::32 word)) 0) \<noteq> NULL \<and>
   ideal 8 (hash (two_colliding ! 1)) \<notin> after_upto 8 0 1 \<and> move_cond 0 1 0 \<and>
   remove_loop 8 two_colliding 0 0 = remove_loop 8 (two_colliding[0 := two_colliding ! 1]) 1 1"
proof -
  have h: "(8::32 word) \<noteq> 0" "length two_colliding = unat (8::32 word)"
    "(0::nat) < unat (8::32 word)" "(0::nat) < unat (8::32 word)"
    "next_slot (unat (8::32 word)) 0 \<noteq> 0"
    "key (two_colliding ! next_slot (unat (8::32 word)) 0) \<noteq> NULL"
    by (simp_all add: two_colliding_def next_slot_def)
  have i: "ideal 8 (hash (two_colliding ! 1)) = 0" "next_slot 8 0 = 1"
    by (simp_all add: two_colliding_def ideal_def next_slot_def)
  have a: "0 \<notin> after_upto 8 0 1"
    by (simp add: after_upto_def)
  show ?thesis
    using C2_move_iff_outside_after_upto[OF h] h i a by (simp add: Let_def)
qed

section \<open>Probing\<close>

lemma between_iff:
  "j \<in> between c a b \<longleftrightarrow> (if a \<le> b then a \<le> j \<and> j < b else (a \<le> j \<and> j < c) \<or> j < b)"
  by (auto simp: between_def)

lemma between_dist:
  "a < c \<Longrightarrow> b < c \<Longrightarrow> j \<in> between c a b \<longleftrightarrow> j < c \<and> dist c a j < dist c a b"
  by (auto simp: between_iff dist_def)

lemma first_stop_exists:
  assumes "p < c" and "s0 < c" and "P s0"
  shows "\<exists>s<c. P s \<and> (\<forall>j \<in> between c p s. \<not> P j)"
proof -
  have "\<exists>s. s < c \<and> P s" using assms by blast
  then obtain s where s: "s < c \<and> P s"
    and least: "\<And>y. y < c \<and> P y \<Longrightarrow> dist c p s \<le> dist c p y"
    using ex_has_least_nat[of "\<lambda>s. s < c \<and> P s" _ "dist c p"] by blast
  have "\<forall>j \<in> between c p s. \<not> P j"
  proof
    fix j assume "j \<in> between c p s"
    then have "j < c" "dist c p j < dist c p s" using assms(1) s by (simp_all add: between_dist)
    then show "\<not> P j" using least[of j] by auto
  qed
  with s show ?thesis by blast
qed

lemma probe_loop_first:
  assumes "length es = c" "p < c" "s < c" "stops m es k h s"
    and "\<forall>j \<in> between c p s. \<not> stops m es k h j"
  shows "probe_loop m c es k h p = Some s"
  using assms
proof (induction "dist c p s" arbitrary: p)
  case 0
  then have "p = s" by (auto simp: dist_def split: if_splits)
  with 0 show ?case by (subst probe_loop.simps) (auto simp: stops_def)
next
  case (Suc d)
  let ?p' = "if c \<le> p + 1 then 0 else p + 1"
  from Suc have ne: "p \<noteq> s" by (auto simp: dist_def)
  with Suc.prems have "p \<in> between c p s" by (auto simp: between_iff)
  with Suc.prems have ns: "\<not> stops m es k h p" by blast
  have d: "d = dist c ?p' s" using Suc.hyps(2) Suc.prems ne by (auto simp: dist_def split: if_splits)
  have sub: "\<forall>j \<in> between c ?p' s. \<not> stops m es k h j"
    using Suc.prems ne by (auto simp: between_iff split: if_splits)
  have "?p' < c" using Suc.prems by auto
  then have "probe_loop m c es k h ?p' = Some s"
    using Suc.hyps(1)[OF d Suc.prems(1) _ Suc.prems(3,4) sub] by simp
  then show ?case using ns Suc.prems by (subst probe_loop.simps) (auto simp: stops_def)
qed

lemma Probe_first:
  assumes "probe_pre t k" and "s < unat (capacity_m t)" and "stops (match_m t) (map_m t) k h s"
    and "\<forall>j \<in> between (unat (capacity_m t)) (ideal (capacity_m t) h) s. \<not> stops (match_m t) (map_m t) k h j"
  shows "Probe t k h = Some s"
proof -
  have c: "capacity_m t \<noteq> 0" using assms(1) by (auto simp: probe_pre_def IsPowerOfTwo32_nonzero)
  then have i: "ideal (capacity_m t) h < unat (capacity_m t)" by (rule ideal_less)
  have "probe_loop (match_m t) (unat (capacity_m t)) (map_m t) k h (ideal (capacity_m t) h) = Some s"
    using assms i by (intro probe_loop_first) (auto simp: probe_pre_def)
  then show ?thesis using assms(1) i by (simp add: Probe_def probe_pre_def Let_def)
qed

lemma Probe_total:
  assumes "probe_pre t k" and "s0 < unat (capacity_m t)" and "key (map_m t ! s0) = NULL"
  shows "\<exists>s. Probe t k h = Some s \<and> s < unat (capacity_m t) \<and> stops (match_m t) (map_m t) k h s \<and>
    (\<forall>j \<in> between (unat (capacity_m t)) (ideal (capacity_m t) h) s. \<not> stops (match_m t) (map_m t) k h j)"
proof -
  have c: "capacity_m t \<noteq> 0" using assms(1) by (auto simp: probe_pre_def IsPowerOfTwo32_nonzero)
  then have i: "ideal (capacity_m t) h < unat (capacity_m t)" by (rule ideal_less)
  have "stops (match_m t) (map_m t) k h s0" using assms(3) by (simp add: stops_def)
  from first_stop_exists[OF i assms(2), of "stops (match_m t) (map_m t) k h", OF this]
  obtain s where s: "s < unat (capacity_m t)" "stops (match_m t) (map_m t) k h s"
    "\<forall>j \<in> between (unat (capacity_m t)) (ideal (capacity_m t) h) s. \<not> stops (match_m t) (map_m t) k h j"
    by blast
  then have "Probe t k h = Some s" using assms(1) by (intro Probe_first)
  with s show ?thesis by blast
qed

lemma filter_less_ex:
  "length (filter P xs) < length xs \<Longrightarrow> \<exists>i<length xs. \<not> P (xs ! i)"
proof -
  assume "length (filter P xs) < length xs"
  then have "filter P xs \<noteq> xs" by auto
  then have "\<exists>x \<in> set xs. \<not> P x" by (metis filter_True)
  then show ?thesis by (auto simp: in_set_conv_nth)
qed

lemma wf_empty_slot:
  assumes "hashmap_wf t" and "occupancy_m t < capacity_m t"
  shows "\<exists>s<unat (capacity_m t). key (map_m t ! s) = NULL"
proof -
  have "length (filter (\<lambda>e. key e \<noteq> NULL) (map_m t)) < length (map_m t)"
    using assms by (simp add: hashmap_wf_def entries_def word_less_nat_alt)
  from filter_less_ex[OF this] show ?thesis using assms(1) by (auto simp: hashmap_wf_def)
qed

lemma wf_probe_pre: "hashmap_wf t \<Longrightarrow> occupancy_m t < capacity_m t \<Longrightarrow> k \<noteq> NULL \<Longrightarrow> probe_pre t k"
  by (simp add: hashmap_wf_def probe_pre_def)

lemma load_ok_less: "load_ok t \<Longrightarrow> occupancy_m t < capacity_m t"
  by (simp add: load_ok_def word_less_nat_alt)

lemma inv_Probe:
  assumes "hashmap_wf t" and "occupancy_m t < capacity_m t" and "k \<noteq> NULL"
  shows "\<exists>s. Probe t k h = Some s \<and> s < unat (capacity_m t) \<and> stops (match_m t) (map_m t) k h s \<and>
    (\<forall>j \<in> between (unat (capacity_m t)) (ideal (capacity_m t) h) s. \<not> stops (match_m t) (map_m t) k h j)"
proof -
  obtain s0 where "s0 < unat (capacity_m t)" "key (map_m t ! s0) = NULL"
    using wf_empty_slot[OF assms(1,2)] by blast
  then show ?thesis using wf_probe_pre[OF assms] by (intro Probe_total)
qed

lemma between_less: "a < c \<Longrightarrow> b < c \<Longrightarrow> j \<in> between c a b \<Longrightarrow> j < c \<and> j \<noteq> b"
  by (auto simp: between_iff split: if_splits)

lemma filter_nth_mset_diff:
  assumes "i < length xs" "j < length xs" "i \<noteq> j" "P (xs ! j)"
  shows "xs ! j \<in># mset (filter P xs) - {#xs ! i#}"
proof -
  have xs: "xs = take i xs @ xs ! i # drop (Suc i) xs" using assms(1) by (rule id_take_nth_drop)
  have "xs ! j \<in> set (take i xs) \<or> xs ! j \<in> set (drop (Suc i) xs)"
  proof (cases "j < i")
    case True
    then have "xs ! j = take i xs ! j" by simp
    moreover have "j < length (take i xs)" using True assms(1) by simp
    ultimately show ?thesis by (metis nth_mem)
  next
    case False
    with assms(3) have "Suc i \<le> j" by simp
    then obtain d where d: "j = Suc i + d" using le_Suc_ex by blast
    then have "xs ! j = drop (Suc i) xs ! d" using assms(2) by simp
    moreover have "d < length (drop (Suc i) xs)" using d assms(2) by simp
    ultimately show ?thesis by (metis nth_mem)
  qed
  then have "xs ! j \<in># mset (filter P (take i xs)) + mset (filter P (drop (Suc i) xs))"
    using assms(4) by auto
  moreover have "mset (filter P (take i xs)) + mset (filter P (drop (Suc i) xs)) \<subseteq># mset (filter P xs) - {#xs ! i#}"
  proof -
    have "mset (filter P xs) = mset (filter P (take i xs)) + mset (filter P (xs ! i # drop (Suc i) xs))"
      by (subst xs) (simp only: filter_append mset_append)
    then show ?thesis by (cases "P (xs ! i)") auto
  qed
  ultimately show ?thesis by (meson mset_subset_eqD)
qed

lemma unique_keys_nth:
  assumes "unique_keys m (mset (filter (\<lambda>e. key e \<noteq> NULL) es))"
    and "i < length es" "j < length es" "i \<noteq> j" "key (es ! i) \<noteq> NULL" "key (es ! j) \<noteq> NULL"
  shows "\<not> (hash (es ! i) = hash (es ! j) \<and> m (key (es ! i)) (key (es ! j)))"
proof -
  have "es ! i \<in># mset (filter (\<lambda>e. key e \<noteq> NULL) es)" using assms(2,5) by simp
  moreover have "es ! j \<in># mset (filter (\<lambda>e. key e \<noteq> NULL) es) - {#es ! i#}"
    using assms by (intro filter_nth_mset_diff) auto
  ultimately show ?thesis using assms(1) unfolding unique_keys_def by blast
qed

lemma probe_match:
  assumes wf: "hashmap_wf t" and lt: "occupancy_m t < capacity_m t" and k: "k \<noteq> NULL"
    and i: "i < unat (capacity_m t)" and live: "key (map_m t ! i) \<noteq> NULL"
    and h: "hash (map_m t ! i) = h" and m: "match_m t k (key (map_m t ! i))"
  shows "Probe t k h = Some i"
proof (rule Probe_first)
  let ?c = "unat (capacity_m t)" and ?es = "map_m t"
  show "probe_pre t k" using wf lt k by (rule wf_probe_pre)
  show "i < ?c" by (rule i)
  show "stops (match_m t) ?es k h i" using h m by (simp add: stops_def)
  have len: "length ?es = ?c" using wf by (simp add: hashmap_wf_def)
  have c0: "capacity_m t \<noteq> 0" using wf by (simp add: hashmap_wf_def IsPowerOfTwo32_nonzero)
  have eq: "equality_predicate (match_m t)" using wf by (simp add: hashmap_wf_def)
  have reach: "reachable (capacity_m t) ?es i"
    using wf i live len by (simp add: hashmap_wf_def all_reachable_def)
  show "\<forall>j \<in> between ?c (ideal (capacity_m t) h) i. \<not> stops (match_m t) ?es k h j"
  proof
    fix j assume j: "j \<in> between ?c (ideal (capacity_m t) h) i"
    then have jl: "key (?es ! j) \<noteq> NULL" using reach h by (simp add: reachable_def)
    have jc: "j < ?c \<and> j \<noteq> i" using j ideal_less[OF c0] i by (intro between_less) auto
    have "\<not> (h = hash (?es ! j) \<and> match_m t k (key (?es ! j)))"
    proof
      assume a: "h = hash (?es ! j) \<and> match_m t k (key (?es ! j))"
      have "match_m t (key (?es ! i)) k" using eq m unfolding equality_predicate_def by blast
      with a have "match_m t (key (?es ! i)) (key (?es ! j))"
        using eq unfolding equality_predicate_def by blast
      moreover have "hash (?es ! i) = hash (?es ! j)" using a h by simp
      moreover have "unique_keys (match_m t) (mset (filter (\<lambda>e. key e \<noteq> NULL) ?es))"
        using wf by (simp add: hashmap_wf_def entries_def)
      ultimately show False using unique_keys_nth[of "match_m t" ?es i j] i jc len live jl by simp
    qed
    with jl show "\<not> stops (match_m t) ?es k h j" by (simp add: stops_def)
  qed
qed

lemma probe_empty:
  assumes wf: "hashmap_wf t" and lt: "occupancy_m t < capacity_m t" and k: "k \<noteq> NULL"
    and p: "Probe t k h = Some p" and e: "key (map_m t ! p) = NULL"
  shows "p < unat (capacity_m t)"
    and "\<forall>j \<in> between (unat (capacity_m t)) (ideal (capacity_m t) h) p. key (map_m t ! j) \<noteq> NULL"
    and "\<forall>i < unat (capacity_m t). key (map_m t ! i) \<noteq> NULL \<longrightarrow>
           \<not> (hash (map_m t ! i) = h \<and> match_m t k (key (map_m t ! i)))"
proof -
  from inv_Probe[OF wf lt k, of h] p
  have s: "p < unat (capacity_m t)"
    "\<forall>j \<in> between (unat (capacity_m t)) (ideal (capacity_m t) h) p. \<not> stops (match_m t) (map_m t) k h j"
    by auto
  show "p < unat (capacity_m t)" by (rule s)
  show "\<forall>j \<in> between (unat (capacity_m t)) (ideal (capacity_m t) h) p. key (map_m t ! j) \<noteq> NULL"
    using s(2) by (auto simp: stops_def)
  show "\<forall>i < unat (capacity_m t). key (map_m t ! i) \<noteq> NULL \<longrightarrow>
           \<not> (hash (map_m t ! i) = h \<and> match_m t k (key (map_m t ! i)))"
  proof (intro allI impI notI)
    fix i assume "i < unat (capacity_m t)" "key (map_m t ! i) \<noteq> NULL"
      "hash (map_m t ! i) = h \<and> match_m t k (key (map_m t ! i))"
    then have "Probe t k h = Some i" using wf lt k by (intro probe_match) auto
    with p have "i = p" by simp
    with e \<open>key (map_m t ! i) \<noteq> NULL\<close> show False by simp
  qed
qed

lemma probe_live:
  assumes wf: "hashmap_wf t" and lt: "occupancy_m t < capacity_m t" and k: "k \<noteq> NULL"
    and p: "Probe t k h = Some p" and e: "key (map_m t ! p) \<noteq> NULL"
  shows "p < unat (capacity_m t) \<and> hash (map_m t ! p) = h \<and> match_m t k (key (map_m t ! p))"
  using inv_Probe[OF wf lt k, of h] p e by (auto simp: stops_def)

lemma probe_absent:
  assumes wf: "hashmap_wf t" and lt: "occupancy_m t < capacity_m t" and k: "k \<noteq> NULL"
    and a: "\<forall>e \<in># mset (entries t). \<not> (hash e = h \<and> match_m t k (key e))"
  shows "\<exists>p. Probe t k h = Some p \<and> p < unat (capacity_m t) \<and> key (map_m t ! p) = NULL"
proof -
  from inv_Probe[OF wf lt k, of h] obtain p where p: "Probe t k h = Some p" "p < unat (capacity_m t)"
    "stops (match_m t) (map_m t) k h p" by blast
  have "key (map_m t ! p) = NULL"
  proof (rule ccontr)
    assume l: "key (map_m t ! p) \<noteq> NULL"
    have "p < length (map_m t)" using p(2) wf by (simp add: hashmap_wf_def)
    then have "map_m t ! p \<in># mset (entries t)" using l by (simp add: entries_def)
    with a p(3) l show False by (auto simp: stops_def)
  qed
  with p show ?thesis by blast
qed

section \<open>Insertion\<close>

lemma insert_at_place:
  "insert_at t p k h = place t p \<lparr>key = k, val = NULL, hash = h, order = sint (occupancy_m t)\<rparr>"
  by (simp add: insert_at_def place_def)

lemma Entry_eta: "\<lparr>key = key e, val = val e, hash = hash e, order = order e\<rparr> = e"
  by (cases e) simp

lemma set_order_set_value_insert_at:
  "p < length (map_m t) \<Longrightarrow>
   set_order (set_value (insert_at t p (key e) (hash e)) p (val e)) p (order e) = place t p e"
  by (simp add: insert_at_def place_def set_order_def set_value_def Entry_eta)

lemma mset_filter_update:
  "p < length xs \<Longrightarrow>
   mset (filter P (xs[p := x])) + (if P (xs ! p) then {#xs ! p#} else {#}) =
   mset (filter P xs) + (if P x then {#x#} else {#})"
proof (induction xs arbitrary: p)
  case Nil
  then show ?case by simp
next
  case (Cons a xs)
  show ?case
  proof (cases p)
    case 0
    then show ?thesis by simp
  next
    case (Suc p')
    with Cons.prems have "p' < length xs" by simp
    from Cons.IH[OF this] Suc show ?thesis by (auto simp: ac_simps)
  qed
qed

lemma entries_place:
  assumes "q < length (map_m t)" "key (map_m t ! q) = NULL" "key e \<noteq> NULL"
  shows "mset (entries (place t q e)) = add_mset e (mset (entries t))"
  using mset_filter_update[OF assms(1), of "\<lambda>e. key e \<noteq> NULL" e] assms(2,3)
  by (simp add: entries_def place_def)

lemma unat_Suc_less:
  fixes a b :: "32 word"
  shows "a < b \<Longrightarrow> unat (a + 1) = unat a + 1"
proof -
  assume "a < b"
  then have "unat a < unat b" by (simp add: word_less_nat_alt)
  moreover have "unat b < 2 ^ 32" using unsigned_less[of b] by simp
  ultimately have "unat a + unat (1::32 word) < 2 ^ LENGTH(32)" by simp
  then have "unat (a + 1) = unat a + unat (1::32 word)" by (simp only: unat_add_lem)
  then show ?thesis by simp
qed

lemma unique_keys_add:
  assumes "unique_keys m M" and "equality_predicate m"
    and "\<forall>x \<in># M. \<not> (hash x = hash e \<and> m (key e) (key x))"
  shows "unique_keys m (add_mset e M)"
  unfolding unique_keys_def
proof (intro ballI notI)
  fix a b assume a: "a \<in># add_mset e M" and b: "b \<in># add_mset e M - {#a#}"
    and s: "hash a = hash b \<and> m (key a) (key b)"
  have sym: "m (key b) (key a)" using s assms(2) unfolding equality_predicate_def by blast
  show False
  proof (cases "a = e")
    case True
    with b have "b \<in># M" by simp
    with assms(3) s True show False by auto
  next
    case False
    with a have aM: "a \<in># M" by simp
    have "add_mset e M - {#a#} = add_mset e (M - {#a#})" using aM by simp
    with b have "b = e \<or> b \<in># M - {#a#}" by auto
    then show False
    proof
      assume "b = e"
      with assms(3) aM s sym show False by auto
    next
      assume "b \<in># M - {#a#}"
      with assms(1) aM s show False unfolding unique_keys_def by blast
    qed
  qed
qed

lemma unique_keys_subset:
  assumes "unique_keys m M" and "N \<subseteq># M"
  shows "unique_keys m N"
  unfolding unique_keys_def
proof (intro ballI)
  fix a b assume a: "a \<in># N" and b: "b \<in># N - {#a#}"
  have "a \<in># M" using a assms(2) by (meson mset_subset_eqD)
  moreover have "count N b \<le> count M b" using assms(2) by (simp add: mset_subset_eq_count)
  then have "b \<in># M - {#a#}" using b by (auto simp: in_diff_count split: if_splits)
  ultimately show "\<not> (hash a = hash b \<and> m (key a) (key b))"
    using assms(1) unfolding unique_keys_def by blast
qed

lemma reachable_place:
  assumes len: "length es = unat cap" and c0: "cap \<noteq> 0" and q: "q < unat cap"
    and e: "key e \<noteq> NULL"
    and chain: "\<forall>j \<in> between (unat cap) (ideal cap (hash e)) q. key (es ! j) \<noteq> NULL"
    and ar: "all_reachable cap es" and empty: "key (es ! q) = NULL"
  shows "all_reachable cap (es[q := e])"
  unfolding all_reachable_def
proof (intro ballI impI)
  fix i assume i: "i \<in> {0..<length (es[q := e])}" and live: "key (es[q := e] ! i) \<noteq> NULL"
  show "reachable cap (es[q := e]) i"
  proof (cases "i = q")
    case True
    have "\<forall>j \<in> between (unat cap) (ideal cap (hash e)) q. key (es[q := e] ! j) \<noteq> NULL"
    proof
      fix j assume j: "j \<in> between (unat cap) (ideal cap (hash e)) q"
      then have "j \<noteq> q" using between_less[OF ideal_less[OF c0] q j] by simp
      then show "key (es[q := e] ! j) \<noteq> NULL" using chain j by simp
    qed
    then show ?thesis using True q len by (simp add: reachable_def)
  next
    case False
    then have same: "es[q := e] ! i = es ! i" by simp
    with live i ar have r: "reachable cap es i" by (simp add: all_reachable_def)
    have "\<forall>j \<in> between (unat cap) (ideal cap (hash (es ! i))) i. key (es[q := e] ! j) \<noteq> NULL"
    proof
      fix j assume j: "j \<in> between (unat cap) (ideal cap (hash (es ! i))) i"
      then have "key (es ! j) \<noteq> NULL" using r by (simp add: reachable_def)
      moreover have "j < length es" using between_less[OF ideal_less[OF c0] _ j] i len by simp
      ultimately show "key (es[q := e] ! j) \<noteq> NULL" using e by (cases "j = q") simp_all
    qed
    then show ?thesis using same by (simp add: reachable_def)
  qed
qed

lemma wf_place:
  assumes wf: "hashmap_wf t" and lt: "occupancy_m t < capacity_m t"
    and q: "q < unat (capacity_m t)" and empty: "key (map_m t ! q) = NULL" and e: "key e \<noteq> NULL"
    and chain: "\<forall>j \<in> between (unat (capacity_m t)) (ideal (capacity_m t) (hash e)) q.
                  key (map_m t ! j) \<noteq> NULL"
    and absent: "\<forall>x \<in># mset (entries t). \<not> (hash x = hash e \<and> match_m t (key e) (key x))"
  shows "hashmap_wf (place t q e)"
proof -
  have len: "length (map_m t) = unat (capacity_m t)" using wf by (simp add: hashmap_wf_def)
  have c0: "capacity_m t \<noteq> 0" using wf by (simp add: hashmap_wf_def IsPowerOfTwo32_nonzero)
  have ent: "mset (entries (place t q e)) = add_mset e (mset (entries t))"
    using q len empty e by (intro entries_place) auto
  have "length (entries (place t q e)) = Suc (length (entries t))"
    using arg_cong[OF ent, of size] by simp
  then have cnt: "unat (occupancy_m (place t q e)) = length (entries (place t q e))"
    using wf unat_Suc_less[OF lt] by (simp add: hashmap_wf_def place_def)
  have uk: "unique_keys (match_m t) (mset (entries (place t q e)))"
    unfolding ent using wf absent by (intro unique_keys_add) (auto simp: hashmap_wf_def)
  have ar: "all_reachable (capacity_m t) ((map_m t)[q := e])"
    using len c0 q e chain empty wf by (intro reachable_place) (auto simp: hashmap_wf_def)
  show ?thesis
    unfolding hashmap_wf_def
    using wf cnt uk ar len by (simp add: hashmap_wf_def place_def)
qed

lemma probe_empty_absent:
  assumes wf: "hashmap_wf t" and lt: "occupancy_m t < capacity_m t" and k: "k \<noteq> NULL"
    and p: "Probe t k h = Some p" and e: "key (map_m t ! p) = NULL"
  shows "\<forall>x \<in># mset (entries t). \<not> (hash x = h \<and> match_m t k (key x))"
proof
  fix x assume "x \<in># mset (entries t)"
  then have "x \<in> set (map_m t)" "key x \<noteq> NULL" by (simp_all add: entries_def)
  then obtain i where i: "i < length (map_m t)" "map_m t ! i = x" by (auto simp: in_set_conv_nth)
  have "length (map_m t) = unat (capacity_m t)" using wf by (simp add: hashmap_wf_def)
  with probe_empty(3)[OF wf lt k p e] i \<open>key x \<noteq> NULL\<close>
  show "\<not> (hash x = h \<and> match_m t k (key x))" by auto
qed

lemma entries_absent_nth:
  assumes "\<forall>x \<in># mset (entries t). \<not> (hash x = h \<and> match_m t k (key x))"
    and "i < length (map_m t)" "key (map_m t ! i) \<noteq> NULL"
  shows "\<not> (hash (map_m t ! i) = h \<and> match_m t k (key (map_m t ! i)))"
proof -
  have "map_m t ! i \<in># mset (entries t)" using assms(2,3) by (simp add: entries_def)
  with assms(1) show ?thesis by blast
qed

lemma LookupOrInsert_found:
  "Probe t k h = Some p \<Longrightarrow> key (map_m t ! p) \<noteq> NULL \<Longrightarrow> LookupOrInsert t k h = Some (t, p)"
  by (subst LookupOrInsert.simps) simp

lemma LookupOrInsert_insert:
  "Probe t k h = Some p \<Longrightarrow> key (map_m t ! p) = NULL \<Longrightarrow>
   \<not> grow_trigger (occupancy_m t + 1) (capacity_m t) \<Longrightarrow>
   LookupOrInsert t k h = Some (insert_at t p k h, p)"
  by (subst LookupOrInsert.simps) (simp add: Let_def insert_at_def)

lemma LookupOrInsert_grow:
  "Probe t k h = Some p \<Longrightarrow> key (map_m t ! p) = NULL \<Longrightarrow>
   grow_trigger (occupancy_m t + 1) (capacity_m t) \<Longrightarrow>
   LookupOrInsert t k h =
     do { t2 \<leftarrow> Resize (insert_at t p k h); p' \<leftarrow> Probe t2 k h; Some (t2, p') }"
  by (subst LookupOrInsert.simps) (simp add: Let_def insert_at_def Resize_def)

section \<open>Growth\<close>

lemma no_trigger_bound:
  fixes oc cap :: "32 word"
  assumes "unat oc \<le> B" and "B + B div 4 < unat cap"
  shows "\<not> grow_trigger oc cap"
proof -
  have c: "unat cap < 2 ^ 32" using unsigned_less[of cap] by simp
  have "unat oc + unat oc div 4 \<le> B + B div 4" using assms(1) by (simp add: add_mono div_le_mono)
  with assms(2) have lt: "unat oc + unat oc div 4 < unat cap" by simp
  with c have "unat oc + unat oc div 4 < 2 ^ 32" by simp
  from grow_trigger_unat[OF this, of cap] lt show ?thesis by simp
qed

lemma rehash_zero: "rehash ins rest 0 t = Some t"
  by (cases rest) simp_all

lemma rehash_correct:
  assumes "hashmap_wf t"
    and "unat (occupancy_m t) + length (filter (\<lambda>e. key e \<noteq> NULL) rest) \<le> B"
    and "B + B div 4 < unat (capacity_m t)"
    and "unat n = length (filter (\<lambda>e. key e \<noteq> NULL) rest)"
    and "unique_keys (match_m t) (mset (entries t) + mset (filter (\<lambda>e. key e \<noteq> NULL) rest))"
  shows "\<exists>t'. rehash LookupOrInsert rest n t = Some t' \<and> hashmap_wf t' \<and>
    mset (entries t') = mset (entries t) + mset (filter (\<lambda>e. key e \<noteq> NULL) rest) \<and>
    capacity_m t' = capacity_m t \<and> match_m t' = match_m t"
  using assms
proof (induction rest arbitrary: n t)
  case Nil
  then have "n = 0" by (simp add: unat_eq_zero)
  with Nil show ?case by simp
next
  case (Cons e rest)
  show ?case
  proof (cases "key e \<noteq> NULL")
    case False
    then have "rehash LookupOrInsert (e # rest) n t = rehash LookupOrInsert rest n t"
      using False by (cases "n = 0") (simp_all add: rehash_zero word_gt_0)
    moreover have "\<exists>t'. rehash LookupOrInsert rest n t = Some t' \<and> hashmap_wf t' \<and>
      mset (entries t') = mset (entries t) + mset (filter (\<lambda>e. key e \<noteq> NULL) rest) \<and>
      capacity_m t' = capacity_m t \<and> match_m t' = match_m t"
      using Cons.prems False by (intro Cons.IH) simp_all
    ultimately show ?thesis using False by simp
  next
    case True
    let ?live = "\<lambda>e. key e \<noteq> NULL"
    have n: "unat n = Suc (length (filter ?live rest))" using Cons.prems(4) True by simp
    then have n0: "0 < n" by (metis unat_gt_0 word_gt_0 zero_less_Suc)
    have ocB: "unat (occupancy_m t) + 1 \<le> B" using Cons.prems(2) True by simp
    with Cons.prems(3) have lt: "occupancy_m t < capacity_m t" by (simp add: word_less_nat_alt)
    have absent: "\<forall>x \<in># mset (entries t). \<not> (hash x = hash e \<and> match_m t (key e) (key x))"
    proof
      fix x assume x: "x \<in># mset (entries t)"
      have "e \<in># mset (entries t) + mset (filter ?live (e # rest))" using True by simp
      moreover have "x \<in># mset (entries t) + mset (filter ?live (e # rest)) - {#e#}"
        using x True by simp
      ultimately have "\<not> (hash e = hash x \<and> match_m t (key e) (key x))"
        using Cons.prems(5) unfolding unique_keys_def by blast
      then show "\<not> (hash x = hash e \<and> match_m t (key e) (key x))" by auto
    qed
    from probe_absent[OF Cons.prems(1) lt True absent]
    obtain p where p: "Probe t (key e) (hash e) = Some p" "p < unat (capacity_m t)"
      "key (map_m t ! p) = NULL" by blast
    have len: "length (map_m t) = unat (capacity_m t)" using Cons.prems(1) by (simp add: hashmap_wf_def)
    have "unat (occupancy_m t + 1) \<le> B" using ocB unat_Suc_less[OF lt] by simp
    then have nt: "\<not> grow_trigger (occupancy_m t + 1) (capacity_m t)"
      using Cons.prems(3) by (rule no_trigger_bound)
    have loi: "LookupOrInsert t (key e) (hash e) = Some (insert_at t p (key e) (hash e), p)"
      using p nt by (intro LookupOrInsert_insert)
    let ?t1 = "place t p e"
    have step: "rehash LookupOrInsert (e # rest) n t = rehash LookupOrInsert rest (n - 1) ?t1"
      using n0 True loi p len by (simp add: set_order_set_value_insert_at)
    have wf1: "hashmap_wf ?t1"
      using Cons.prems(1) lt p(2,3) True probe_empty(2)[OF Cons.prems(1) lt True p(1,3)] absent
      by (intro wf_place)
    have ent1: "mset (entries ?t1) = add_mset e (mset (entries t))"
      using p len True by (intro entries_place) auto
    have oc1: "unat (occupancy_m ?t1) = unat (occupancy_m t) + 1"
      using unat_Suc_less[OF lt] by (simp add: place_def)
    have n1: "unat (n - 1) = length (filter ?live rest)"
      using n n0 by (simp add: unat_minus_one)
    have "\<exists>t'. rehash LookupOrInsert rest (n - 1) ?t1 = Some t' \<and> hashmap_wf t' \<and>
      mset (entries t') = mset (entries ?t1) + mset (filter ?live rest) \<and>
      capacity_m t' = capacity_m ?t1 \<and> match_m t' = match_m ?t1"
    proof (rule Cons.IH)
      show "hashmap_wf ?t1" by (rule wf1)
      show "unat (occupancy_m ?t1) + length (filter ?live rest) \<le> B"
        using oc1 Cons.prems(2) True by simp
      show "B + B div 4 < unat (capacity_m ?t1)" using Cons.prems(3) by (simp add: place_def)
      show "unat (n - 1) = length (filter ?live rest)" by (rule n1)
      show "unique_keys (match_m ?t1) (mset (entries ?t1) + mset (filter ?live rest))"
        using Cons.prems(5) True ent1 by (simp add: place_def)
    qed
    then show ?thesis using step ent1 True by (simp add: place_def)
  qed
qed

lemma IsPowerOfTwo32_double:
  assumes "IsPowerOfTwo32 c" and "unat c \<le> 2 ^ 30"
  shows "IsPowerOfTwo32 (c * 2)" and "unat (c * 2) = 2 * unat c"
proof -
  from assms(1) obtain n where n: "n < 32" "c = 2 ^ n" by (auto simp: IsPowerOfTwo32_def)
  then have le: "(2::nat) ^ n \<le> 2 ^ 30" using assms(2) by (simp add: unat_2p32)
  have "n \<le> 30"
  proof (rule ccontr)
    assume "\<not> n \<le> 30"
    then have "31 \<le> n" by simp
    then have "(2::nat) ^ 31 \<le> 2 ^ n" by (rule power_increasing) simp
    with le show False by simp
  qed
  then have s: "Suc n < 32" by simp
  have c2: "c * 2 = 2 ^ Suc n" using n by simp
  show "IsPowerOfTwo32 (c * 2)" unfolding IsPowerOfTwo32_def c2 using s by (intro bexI[of _ "Suc n"]) simp_all
  show "unat (c * 2) = 2 * unat c" unfolding c2 using n s by (simp only: unat_2p32) simp
qed

lemma IsPowerOfTwo32_cases:
  assumes "IsPowerOfTwo32 c"
  shows "unat c \<le> 2 ^ 30 \<or> c = 2 ^ 31"
proof -
  from assms(1) obtain n where n: "n < 32" "c = 2 ^ n" by (auto simp: IsPowerOfTwo32_def)
  show ?thesis
  proof (cases "n = 31")
    case True
    with n show ?thesis by simp
  next
    case False
    with n have "n \<le> 30" by simp
    then have "(2::nat) ^ n \<le> 2 ^ 30" by (rule power_increasing) simp
    with n show ?thesis by (simp add: unat_2p32)
  qed
qed

lemma Initialize_top: "Initialize t ((2 ^ 31) * 2) = None"
proof -
  have "\<not> IsPowerOfTwo32 ((2 ^ 31) * 2)" using IsPowerOfTwo32_nonzero[of "(2 ^ 31) * 2"] by auto
  then show ?thesis by (simp add: Initialize_def)
qed

lemma entries_Clear: "entries (Clear t) = []"
  by (simp add: entries_def Clear_def filter_empty_conv)

lemma Initialize_wf:
  assumes "IsPowerOfTwo32 c2" and "equality_predicate (match_m t)"
  shows "\<exists>t0. Initialize t c2 = Some t0 \<and> hashmap_wf t0 \<and> entries t0 = [] \<and>
    capacity_m t0 = c2 \<and> occupancy_m t0 = 0 \<and> match_m t0 = match_m t"
proof -
  let ?t0 = "Clear (t\<lparr>map_m := Malloced_New c2, capacity_m := c2\<rparr>)"
  have i: "Initialize t c2 = Some ?t0" using assms(1) by (simp add: Initialize_def)
  have e: "entries ?t0 = []" by (rule entries_Clear)
  have k: "\<forall>i < length (map_m ?t0). key (map_m ?t0 ! i) = NULL" by (simp add: Clear_def)
  have "all_reachable c2 (map_m ?t0)" using k by (simp add: all_reachable_def)
  moreover have "length (map_m ?t0) = unat c2" by (simp add: Clear_def Malloced_New_def)
  moreover have "capacity_m ?t0 = c2" "occupancy_m ?t0 = 0" "match_m ?t0 = match_m t"
    by (simp_all add: Clear_def)
  ultimately have "hashmap_wf ?t0"
    using assms e by (simp add: hashmap_wf_def unique_keys_def)
  with i e show ?thesis by (simp add: Clear_def)
qed

lemma Resize_correct:
  assumes wf: "hashmap_wf t" and cap: "unat (capacity_m t) \<le> 2 ^ 30"
  shows "\<exists>t'. Resize t = Some t' \<and> hashmap_inv t' \<and> mset (entries t') = mset (entries t) \<and>
    capacity_m t' = capacity_m t * 2 \<and> match_m t' = match_m t"
proof -
  let ?live = "\<lambda>e. key e \<noteq> NULL"
  have p2: "IsPowerOfTwo32 (capacity_m t)" and eq: "equality_predicate (match_m t)"
    and len: "length (map_m t) = unat (capacity_m t)"
    and oc: "unat (occupancy_m t) = length (entries t)"
    using wf by (simp_all add: hashmap_wf_def)
  note d = IsPowerOfTwo32_double[OF p2 cap]
  from Initialize_wf[OF d(1) eq] obtain t0 where t0:
    "Initialize t (capacity_m t * 2) = Some t0" "hashmap_wf t0" "entries t0 = []"
    "capacity_m t0 = capacity_m t * 2" "occupancy_m t0 = 0" "match_m t0 = match_m t" by blast
  let ?B = "length (entries t)"
  have c0: "0 < unat (capacity_m t)" using p2 IsPowerOfTwo32_nonzero unat_gt_0 by blast
  have B: "?B \<le> unat (capacity_m t)" using len[symmetric] by (simp add: entries_def)
  have bound: "?B + ?B div 4 < unat (capacity_m t0)" using B c0 t0(4) d(2) by simp
  have "\<exists>t'. rehash LookupOrInsert (map_m t) (occupancy_m t) t0 = Some t' \<and> hashmap_wf t' \<and>
    mset (entries t') = mset (entries t0) + mset (filter ?live (map_m t)) \<and>
    capacity_m t' = capacity_m t0 \<and> match_m t' = match_m t0"
  proof (rule rehash_correct[where B = ?B])
    show "hashmap_wf t0" by (rule t0)
    show "unat (occupancy_m t0) + length (filter ?live (map_m t)) \<le> ?B"
      using t0(5) by (simp add: entries_def)
    show "?B + ?B div 4 < unat (capacity_m t0)" by (rule bound)
    show "unat (occupancy_m t) = length (filter ?live (map_m t))" using oc by (simp add: entries_def)
    show "unique_keys (match_m t0) (mset (entries t0) + mset (filter ?live (map_m t)))"
      using wf t0(3,6) by (simp add: hashmap_wf_def entries_def)
  qed
  then obtain t' where t': "rehash LookupOrInsert (map_m t) (occupancy_m t) t0 = Some t'"
    "hashmap_wf t'" "mset (entries t') = mset (entries t0) + mset (filter ?live (map_m t))"
    "capacity_m t' = capacity_m t0" "match_m t' = match_m t0" by blast
  have ent: "mset (entries t') = mset (entries t)"
    unfolding t'(3) t0(3) by (simp add: entries_def)
  have "length (entries t') = ?B" using arg_cong[OF ent, of size] by simp
  then have "load_ok t'" using t'(2,4) bound by (simp add: load_ok_def hashmap_wf_def)
  moreover have "Resize t = Some t'" using t0(1) t'(1) by (simp add: Resize_def Resize_with_def)
  ultimately show ?thesis using t'(2,4,5) ent t0(4,6) by (simp add: hashmap_inv_def)
qed

lemma LookupOrInsert_present:
  assumes "hashmap_inv t" and "k \<noteq> NULL" and "i < unat (capacity_m t)"
    and "key (map_m t ! i) \<noteq> NULL" and "hash (map_m t ! i) = h"
    and "match_m t k (key (map_m t ! i))"
  shows "LookupOrInsert t k h = Some (t, i)"
proof -
  have wf: "hashmap_wf t" and lt: "occupancy_m t < capacity_m t"
    using assms(1) by (simp_all add: hashmap_inv_def load_ok_less)
  have "Probe t k h = Some i" using wf lt assms(2-6) by (rule probe_match)
  then show ?thesis using assms(4) by (rule LookupOrInsert_found)
qed

lemma entries_nth:
  assumes "e \<in># mset (entries t)"
  shows "\<exists>j<length (map_m t). map_m t ! j = e \<and> key e \<noteq> NULL"
proof -
  from assms have "e \<in> set (map_m t)" "key e \<noteq> NULL" by (simp_all add: entries_def)
  then show ?thesis by (auto simp: in_set_conv_nth)
qed

lemma Lookup_entry:
  assumes "hashmap_inv t" and "e \<in># mset (entries t)"
  shows "\<exists>j<unat (capacity_m t). Probe t (key e) (hash e) = Some j \<and> map_m t ! j = e"
proof -
  have wf: "hashmap_wf t" and lt: "occupancy_m t < capacity_m t"
    using assms(1) by (simp_all add: hashmap_inv_def load_ok_less)
  from entries_nth[OF assms(2)] obtain j where j: "j < length (map_m t)" "map_m t ! j = e"
    "key e \<noteq> NULL" by blast
  have len: "length (map_m t) = unat (capacity_m t)" using wf by (simp add: hashmap_wf_def)
  have "match_m t (key e) (key e)" using wf by (simp add: hashmap_wf_def equality_predicate_def)
  then have "Probe t (key e) (hash e) = Some j"
    using wf lt j len by (intro probe_match) auto
  with j len show ?thesis by auto
qed

lemma LookupOrInsert_absent:
  assumes inv: "hashmap_inv t" and k: "k \<noteq> NULL"
    and absent: "\<forall>x \<in># mset (entries t). \<not> (hash x = h \<and> match_m t k (key x))"
    and ok: "unat (capacity_m t) \<le> 2 ^ 30 \<or> \<not> grow_trigger (occupancy_m t + 1) (capacity_m t)"
  shows "\<exists>t' p. LookupOrInsert t k h = Some (t', p) \<and> hashmap_inv t' \<and>
    p < unat (capacity_m t') \<and>
    map_m t' ! p = \<lparr>key = k, val = NULL, hash = h, order = sint (occupancy_m t)\<rparr> \<and>
    mset (entries t') =
      add_mset \<lparr>key = k, val = NULL, hash = h, order = sint (occupancy_m t)\<rparr> (mset (entries t)) \<and>
    match_m t' = match_m t \<and>
    (if grow_trigger (occupancy_m t + 1) (capacity_m t) then capacity_m t' = capacity_m t * 2
     else \<exists>q. Probe t k h = Some q \<and> key (map_m t ! q) = NULL \<and> t' = insert_at t q k h \<and> p = q)"
proof -
  let ?e = "\<lparr>key = k, val = NULL, hash = h, order = sint (occupancy_m t)\<rparr>"
  have wf: "hashmap_wf t" and lt: "occupancy_m t < capacity_m t"
    using inv by (simp_all add: hashmap_inv_def load_ok_less)
  have len: "length (map_m t) = unat (capacity_m t)" using wf by (simp add: hashmap_wf_def)
  from probe_absent[OF wf lt k absent]
  obtain q where q: "Probe t k h = Some q" "q < unat (capacity_m t)" "key (map_m t ! q) = NULL"
    by blast
  let ?t1 = "insert_at t q k h"
  have t1: "?t1 = place t q ?e" by (rule insert_at_place)
  have wf1: "hashmap_wf ?t1"
    unfolding t1 using wf lt q(2,3) k probe_empty(2)[OF wf lt k q(1,3)] absent
    by (intro wf_place) simp_all
  have ent1: "mset (entries ?t1) = add_mset ?e (mset (entries t))"
    unfolding t1 using q len k by (intro entries_place) auto
  have oc1: "unat (occupancy_m ?t1) = unat (occupancy_m t) + 1"
    using unat_Suc_less[OF lt] by (simp add: insert_at_def)
  show ?thesis
  proof (cases "grow_trigger (occupancy_m t + 1) (capacity_m t)")
    case False
    have "IsPowerOfTwo32 (capacity_m t)" using wf by (simp add: hashmap_wf_def)
    then have "unat (capacity_m t) \<le> 2 ^ 31" by (rule IsPowerOfTwo32_le)
    moreover have "unat (occupancy_m t) < unat (capacity_m t)" using lt by (simp add: word_less_nat_alt)
    ultimately have "unat (occupancy_m ?t1) + unat (occupancy_m ?t1) div 4 < 2 ^ 32"
      using oc1 by simp
    from grow_trigger_unat[OF this, of "capacity_m t"] False
    have "load_ok ?t1" by (simp add: load_ok_def insert_at_def)
    with wf1 have "hashmap_inv ?t1" by (simp add: hashmap_inv_def)
    moreover have "LookupOrInsert t k h = Some (?t1, q)" using q(1,3) False by (rule LookupOrInsert_insert)
    moreover have "map_m ?t1 ! q = ?e" using q(2) len by (simp add: insert_at_def)
    moreover have "match_m ?t1 = match_m t" "capacity_m ?t1 = capacity_m t" by (simp_all add: insert_at_def)
    ultimately show ?thesis using False ent1 q by simp
  next
    case True
    with ok have cap: "unat (capacity_m ?t1) \<le> 2 ^ 30" by (simp add: insert_at_def)
    from Resize_correct[OF wf1 cap] obtain t2 where t2: "Resize ?t1 = Some t2" "hashmap_inv t2"
      "mset (entries t2) = mset (entries ?t1)" "capacity_m t2 = capacity_m ?t1 * 2"
      "match_m t2 = match_m ?t1" by blast
    have "?e \<in># mset (entries t2)" using t2(3) ent1 by simp
    from Lookup_entry[OF t2(2) this] obtain j where j: "j < unat (capacity_m t2)"
      "Probe t2 k h = Some j" "map_m t2 ! j = ?e" by auto
    have "LookupOrInsert t k h = Some (t2, j)"
      using LookupOrInsert_grow[OF q(1,3) True] t2(1) j(2) by simp
    then show ?thesis using True t2 j ent1 by (simp add: insert_at_def)
  qed
qed

lemma LookupOrInsert_top:
  assumes inv: "hashmap_inv t" and k: "k \<noteq> NULL"
    and absent: "\<forall>x \<in># mset (entries t). \<not> (hash x = h \<and> match_m t k (key x))"
    and top: "capacity_m t = 2 ^ 31" and g: "grow_trigger (occupancy_m t + 1) (capacity_m t)"
  shows "LookupOrInsert t k h = None"
proof -
  have wf: "hashmap_wf t" and lt: "occupancy_m t < capacity_m t"
    using inv by (simp_all add: hashmap_inv_def load_ok_less)
  from probe_absent[OF wf lt k absent]
  obtain q where q: "Probe t k h = Some q" "q < unat (capacity_m t)" "key (map_m t ! q) = NULL"
    by blast
  have "Resize (insert_at t q k h) = None"
    using top Initialize_top[of "insert_at t q k h"] by (simp add: Resize_def Resize_with_def insert_at_def)
  with LookupOrInsert_grow[OF q(1,3) g] show ?thesis by simp
qed

lemma LookupOrInsert_inv:
  assumes inv: "hashmap_inv t" and k: "k \<noteq> NULL" and r: "LookupOrInsert t k h = Some (t', p)"
  shows "hashmap_inv t' \<and> p < unat (capacity_m t') \<and> key (map_m t' ! p) \<noteq> NULL \<and>
    hash (map_m t' ! p) = h \<and> match_m t' k (key (map_m t' ! p)) \<and> match_m t' = match_m t"
proof -
  have wf: "hashmap_wf t" and lt: "occupancy_m t < capacity_m t"
    using inv by (simp_all add: hashmap_inv_def load_ok_less)
  have refl: "match_m t k k" using wf by (simp add: hashmap_wf_def equality_predicate_def)
  from inv_Probe[OF wf lt k, of h] obtain q where q: "Probe t k h = Some q" by blast
  show ?thesis
  proof (cases "key (map_m t ! q) = NULL")
    case False
    with LookupOrInsert_found[OF q] r have "t' = t" "p = q" by simp_all
    with probe_live[OF wf lt k q False] inv False show ?thesis by simp
  next
    case True
    note absent = probe_empty_absent[OF wf lt k q True]
    have p2: "IsPowerOfTwo32 (capacity_m t)" using wf by (simp add: hashmap_wf_def)
    have ok: "unat (capacity_m t) \<le> 2 ^ 30 \<or> \<not> grow_trigger (occupancy_m t + 1) (capacity_m t)"
      using IsPowerOfTwo32_cases[OF p2] LookupOrInsert_top[OF inv k absent] r by auto
    from LookupOrInsert_absent[OF inv k absent ok] r refl k show ?thesis by auto
  qed
qed

lemma LookupOrInsert_total:
  assumes inv: "hashmap_inv t" and k: "k \<noteq> NULL" and cap: "unat (capacity_m t) \<le> 2 ^ 30"
  shows "\<exists>t' p. LookupOrInsert t k h = Some (t', p)"
proof -
  have wf: "hashmap_wf t" and lt: "occupancy_m t < capacity_m t"
    using inv by (simp_all add: hashmap_inv_def load_ok_less)
  from inv_Probe[OF wf lt k, of h] obtain q where q: "Probe t k h = Some q" by blast
  show ?thesis
  proof (cases "key (map_m t ! q) = NULL")
    case False
    with LookupOrInsert_found[OF q] show ?thesis by blast
  next
    case True
    note absent = probe_empty_absent[OF wf lt k q True]
    from LookupOrInsert_absent[OF inv k absent] cap show ?thesis by blast
  qed
qed

section \<open>Removal\<close>

lemma after_upto_iff:
  "j \<in> after_upto c p q \<longleftrightarrow> (if p \<le> q then p < j \<and> j \<le> q else (p < j \<and> j < c) \<or> j \<le> q)"
  by (auto simp: after_upto_def)

lemma home_avoids_hole:
  "r \<in> after_upto c p i \<Longrightarrow> j \<in> between c r i \<Longrightarrow> p < c \<Longrightarrow> i < c \<Longrightarrow> j \<noteq> p"
  by (auto simp: after_upto_iff between_iff split: if_splits)

lemma beyond_needs_empty:
  assumes "p < c" "e < c" "i < c" "r < c" "q \<in> between c p e" "next_slot c q = e"
    and "i \<notin> after_upto c p q" "i \<noteq> p" "i \<noteq> e" "p \<in> between c r i"
  shows "e \<in> between c r i"
  using assms by (auto simp: after_upto_iff between_iff next_slot_def split: if_splits)

lemma scan_step:
  assumes "p < c" "e < c" "q \<in> between c p e" "next_slot c q \<noteq> e"
  shows "next_slot c q \<in> between c p e" and "next_slot c q \<noteq> p" and "next_slot c q < c"
    and "Suc (dist c (next_slot c q) e) = dist c q e"
    and "after_upto c p (next_slot c q) = insert (next_slot c q) (after_upto c p q)"
  using assms by (auto simp: after_upto_iff between_iff next_slot_def dist_def split: if_splits)

lemma scan_end:
  assumes "p < c" "e < c" "q \<in> between c p e"
  shows "q < c" and "p \<noteq> e" and "p \<in> between c p e" and "0 < dist c q e"
  using assms by (auto simp: between_iff dist_def split: if_splits)

lemma scan_move:
  assumes "p < c" "e < c" "q' \<in> between c p e"
  shows "between c q' e \<subseteq> between c p e" and "q' \<in> between c q' e" and "after_upto c q' q' = {}"
  using assms by (auto simp: after_upto_iff between_iff split: if_splits)

lemma moved_chain:
  assumes "r \<notin> after_upto c p q'" "p < c" "q' < c" "r < c" "p \<noteq> q'"
  shows "between c r p \<subseteq> between c r q'"
  using assms by (auto simp: after_upto_iff between_iff split: if_splits)

lemma mset_filter_move:
  assumes "p < length es" "P (es ! p)" "P x"
  shows "mset (filter P (es[p := x])) - {#x#} = mset (filter P es) - {#es ! p#}"
proof -
  have "mset (filter P (es[p := x])) + {#es ! p#} = mset (filter P es) + {#x#}"
    using mset_filter_update[OF assms(1), of P x] assms(2,3) by simp
  moreover have "es ! p \<in># mset (filter P es)" using assms(1,2) by simp
  ultimately show ?thesis
    by (metis add_mset_add_single add_mset_remove_trivial diff_union_swap2 insert_DiffM)
qed

lemma final_reachable:
  assumes len: "length es = unat cap" and c0: "cap \<noteq> 0"
    and e: "e < unat cap" "key (es ! e) = NULL"
    and p: "p < unat cap" and q: "q \<in> between (unat cap) p e"
    and nxt: "next_slot (unat cap) q = e"
    and home: "\<forall>i \<in> after_upto (unat cap) p q.
                 ideal cap (hash (es ! i)) \<in> after_upto (unat cap) p i"
    and reach: "\<forall>i < unat cap. i \<noteq> p \<and> key (es ! i) \<noteq> NULL \<longrightarrow> reachable cap es i"
  shows "all_reachable cap (es[p := (es ! p)\<lparr>key := NULL\<rparr>])"
  unfolding all_reachable_def
proof (intro ballI impI)
  let ?c = "unat cap" and ?f = "es[p := (es ! p)\<lparr>key := NULL\<rparr>]"
  fix i assume i: "i \<in> {0..<length ?f}" and l: "key (?f ! i) \<noteq> NULL"
  have ic: "i < ?c" using i len by simp
  have ip: "i \<noteq> p" using l p len by auto
  then have same: "?f ! i = es ! i" by simp
  with l have li: "key (es ! i) \<noteq> NULL" by simp
  then have ie: "i \<noteq> e" using e by auto
  let ?r = "ideal cap (hash (es ! i))"
  have rc: "?r < ?c" using c0 by (rule ideal_less)
  have r: "reachable cap es i" using reach ic ip li by simp
  have "\<forall>j \<in> between ?c ?r i. key (?f ! j) \<noteq> NULL"
  proof
    fix j assume j: "j \<in> between ?c ?r i"
    then have lj: "key (es ! j) \<noteq> NULL" using r by (simp add: reachable_def)
    have "j \<noteq> p"
    proof (cases "i \<in> after_upto ?c p q")
      case True
      with home have "?r \<in> after_upto ?c p i" by blast
      then show ?thesis using j p ic by (rule home_avoids_hole)
    next
      case False
      show ?thesis
      proof
        assume "j = p"
        with j have pb: "p \<in> between ?c ?r i" by simp
        have "e \<in> between ?c ?r i"
          using p e(1) ic rc q nxt False ip ie pb by (rule beyond_needs_empty)
        with r e(2) show False by (auto simp: reachable_def)
      qed
    qed
    with lj show "key (?f ! j) \<noteq> NULL" by simp
  qed
  then show "reachable cap ?f i" using same by (simp add: reachable_def)
qed

lemma remove_loop_correct:
  assumes len: "length es = unat cap" and c0: "cap \<noteq> 0"
    and e: "e < unat cap" "key (es ! e) = NULL"
    and p: "p < unat cap" and q: "q \<in> between (unat cap) p e"
    and live: "\<forall>j \<in> between (unat cap) p e. key (es ! j) \<noteq> NULL"
    and home: "\<forall>i \<in> after_upto (unat cap) p q.
                 ideal cap (hash (es ! i)) \<in> after_upto (unat cap) p i"
    and reach: "\<forall>i < unat cap. i \<noteq> p \<and> key (es ! i) \<noteq> NULL \<longrightarrow> reachable cap es i"
  shows "\<exists>es' p'. remove_loop cap es p q = Some (es', p') \<and> length es' = unat cap \<and>
    p' < unat cap \<and> key (es' ! p') \<noteq> NULL \<and>
    all_reachable cap (es'[p' := (es' ! p')\<lparr>key := NULL\<rparr>]) \<and>
    mset (filter (\<lambda>e. key e \<noteq> NULL) es') - {#es' ! p'#} =
      mset (filter (\<lambda>e. key e \<noteq> NULL) es) - {#es ! p#}"
  using assms
proof (induction "dist (unat cap) q e" arbitrary: es p q)
  case 0
  with scan_end(4)[OF "0.prems"(5,3,6)] show ?case by simp
next
  case (Suc d)
  let ?c = "unat cap" and ?live = "\<lambda>e. key e \<noteq> NULL"
  let ?q = "next_slot ?c q"
  note len = Suc.prems(1) and c0 = Suc.prems(2) and e = Suc.prems(3,4) and p = Suc.prems(5)
    and q = Suc.prems(6) and live = Suc.prems(7) and home = Suc.prems(8) and reach = Suc.prems(9)
  note se = scan_end[OF p e(1) q]
  have lp: "key (es ! p) \<noteq> NULL" using live se(3) by blast
  show ?case
  proof (cases "?q = e")
    case True
    have "remove_loop cap es p q = Some (es, p)"
      using True e len by (subst remove_loop_unfold) (simp add: Let_def)
    moreover have "all_reachable cap (es[p := (es ! p)\<lparr>key := NULL\<rparr>])"
      using len c0 e p q True home reach by (rule final_reachable)
    ultimately show ?thesis using len p lp by simp
  next
    case False
    note st = scan_step[OF p e(1) q False]
    have lq: "key (es ! ?q) \<noteq> NULL" using live st(1) by blast
    let ?r = "ideal cap (hash (es ! ?q))"
    have rc: "?r < ?c" using c0 by (rule ideal_less)
    have mc: "move_cond p ?q ?r \<longleftrightarrow> ?r \<notin> after_upto ?c p ?q"
      using p st(3) rc st(2) by (intro move_cond_iff) auto
    have d: "d = dist ?c ?q e" using st(4) Suc.hyps(2) by simp
    show ?thesis
    proof (cases "move_cond p ?q ?r")
      case nomove: False
      have step: "remove_loop cap es p q = remove_loop cap es p ?q"
        using nomove lq st(3) len by (subst remove_loop_unfold) (simp add: Let_def)
      have home': "\<forall>i \<in> after_upto ?c p ?q. ideal cap (hash (es ! i)) \<in> after_upto ?c p i"
      proof
        fix i assume "i \<in> after_upto ?c p ?q"
        then have "i = ?q \<or> i \<in> after_upto ?c p q" unfolding st(5) by simp
        then show "ideal cap (hash (es ! i)) \<in> after_upto ?c p i"
        proof
          assume "i = ?q"
          then show ?thesis using nomove mc by simp
        next
          assume "i \<in> after_upto ?c p q"
          then show ?thesis using home by blast
        qed
      qed
      from Suc.hyps(1)[OF d len c0 e p st(1) live home' reach] step
      show ?thesis by simp
    next
      case move: True
      let ?es = "es[p := es ! ?q]"
      have step: "remove_loop cap es p q = remove_loop cap ?es ?q ?q"
        using move lq st(3) len by (subst remove_loop_unfold) (simp add: Let_def)
      have same_live: "key (?es ! j) \<noteq> NULL \<longleftrightarrow> key (es ! j) \<noteq> NULL" if "j < ?c" for j
        using lp lq len p that by (cases "j = p") simp_all
      note sm = scan_move[OF p e(1) st(1)]
      have len': "length ?es = ?c" using len by simp
      have e': "key (?es ! e) = NULL" using e se(2) by simp
      have live': "\<forall>j \<in> between ?c ?q e. key (?es ! j) \<noteq> NULL"
      proof
        fix j assume "j \<in> between ?c ?q e"
        then have j: "j \<in> between ?c p e" using sm(1) by blast
        then have "j < ?c" using between_less[OF p e(1)] by blast
        with j live same_live show "key (?es ! j) \<noteq> NULL" by blast
      qed
      have home': "\<forall>i \<in> after_upto ?c ?q ?q. ideal cap (hash (?es ! i)) \<in> after_upto ?c ?q i"
        unfolding sm(3) by simp
      have reach': "\<forall>i < ?c. i \<noteq> ?q \<and> key (?es ! i) \<noteq> NULL \<longrightarrow> reachable cap ?es i"
      proof (intro allI impI)
        fix i assume ic: "i < ?c" and i: "i \<noteq> ?q \<and> key (?es ! i) \<noteq> NULL"
        show "reachable cap ?es i"
        proof (cases "i = p")
          case True
          have rq: "reachable cap es ?q" using reach st(2,3) lq by simp
          have "\<forall>j \<in> between ?c ?r p. key (?es ! j) \<noteq> NULL"
          proof
            fix j assume j: "j \<in> between ?c ?r p"
            have "?r \<notin> after_upto ?c p ?q" using move mc by simp
            from moved_chain[OF this p st(3) rc] st(2) j have "j \<in> between ?c ?r ?q" by auto
            then have "key (es ! j) \<noteq> NULL" using rq by (simp add: reachable_def)
            moreover have "j < ?c" using between_less[OF rc p j] by simp
            ultimately show "key (?es ! j) \<noteq> NULL" using same_live by blast
          qed
          then show ?thesis using True p len by (simp add: reachable_def)
        next
          case False
          then have same: "?es ! i = es ! i" by simp
          with i have "key (es ! i) \<noteq> NULL" by simp
          with reach ic False have r: "reachable cap es i" by simp
          have "\<forall>j \<in> between ?c (ideal cap (hash (es ! i))) i. key (?es ! j) \<noteq> NULL"
          proof
            fix j assume j: "j \<in> between ?c (ideal cap (hash (es ! i))) i"
            then have "key (es ! j) \<noteq> NULL" using r by (simp add: reachable_def)
            moreover have "j < ?c" using between_less[OF ideal_less[OF c0] ic j] by simp
            ultimately show "key (?es ! j) \<noteq> NULL" using same_live by blast
          qed
          then show ?thesis using same by (simp add: reachable_def)
        qed
      qed
      from Suc.hyps(1)[OF d len' c0 e(1) e' st(3) sm(2) live' home' reach']
      obtain es' p' where r: "remove_loop cap ?es ?q ?q = Some (es', p')" "length es' = ?c"
        "p' < ?c" "key (es' ! p') \<noteq> NULL"
        "all_reachable cap (es'[p' := (es' ! p')\<lparr>key := NULL\<rparr>])"
        "mset (filter ?live es') - {#es' ! p'#} = mset (filter ?live ?es) - {#?es ! ?q#}"
        by blast
      have "?es ! ?q = es ! ?q" using st(2) by simp
      moreover have "mset (filter ?live ?es) - {#es ! ?q#} = mset (filter ?live es) - {#es ! p#}"
        using p len lp lq by (intro mset_filter_move) auto
      ultimately have "mset (filter ?live es') - {#es' ! p'#} = mset (filter ?live es) - {#es ! p#}"
        using r(6) by simp
      with r step show ?thesis by simp
    qed
  qed
qed

lemma between_self: "p < c \<Longrightarrow> e < c \<Longrightarrow> p \<noteq> e \<Longrightarrow> p \<in> between c p e"
  by (auto simp: between_iff)

lemma Remove_absent:
  "Probe t k h = Some p \<Longrightarrow> key (map_m t ! p) = NULL \<Longrightarrow> Remove t k h = Some (t, NULL)"
  by (simp add: Remove_def)

lemma Remove_present:
  assumes inv: "hashmap_inv t" and k: "k \<noteq> NULL" and pr: "Probe t k h = Some p"
    and lp: "key (map_m t ! p) \<noteq> NULL"
  shows "\<exists>t'. Remove t k h = Some (t', val (map_m t ! p)) \<and> hashmap_inv t' \<and>
    mset (entries t') = mset (entries t) - {#map_m t ! p#} \<and>
    capacity_m t' = capacity_m t \<and> occupancy_m t' = occupancy_m t - 1 \<and>
    match_m t' = match_m t"
proof -
  let ?c = "unat (capacity_m t)" and ?es = "map_m t" and ?live = "\<lambda>e. key e \<noteq> NULL"
  have wf: "hashmap_wf t" and lt: "occupancy_m t < capacity_m t" and load: "load_ok t"
    using inv by (simp_all add: hashmap_inv_def load_ok_less)
  have len: "length ?es = ?c" using wf by (simp add: hashmap_wf_def)
  have c0: "capacity_m t \<noteq> 0" using wf by (simp add: hashmap_wf_def IsPowerOfTwo32_nonzero)
  have p: "p < ?c" using inv_Probe[OF wf lt k, of h] pr by auto
  from wf_empty_slot[OF wf lt] obtain s0 where s0: "s0 < ?c" "key (?es ! s0) = NULL" by blast
  from first_stop_exists[OF p s0(1), of "\<lambda>j. key (?es ! j) = NULL", OF s0(2)]
  obtain e where e: "e < ?c" "key (?es ! e) = NULL"
    "\<forall>j \<in> between ?c p e. key (?es ! j) \<noteq> NULL" by blast
  have pe: "p \<noteq> e" using lp e(2) by auto
  have q: "p \<in> between ?c p e" using p e(1) pe by (rule between_self)
  have home: "\<forall>i \<in> after_upto ?c p p. ideal (capacity_m t) (hash (?es ! i)) \<in> after_upto ?c p i"
    using scan_move(3)[OF p e(1) q] by simp
  have reach: "\<forall>i < ?c. i \<noteq> p \<and> key (?es ! i) \<noteq> NULL \<longrightarrow> reachable (capacity_m t) ?es i"
    using wf len by (simp add: hashmap_wf_def all_reachable_def)
  from remove_loop_correct[OF len c0 e(1,2) p q e(3) home reach]
  obtain es' p' where r: "remove_loop (capacity_m t) ?es p p = Some (es', p')"
    "length es' = ?c" "p' < ?c" "key (es' ! p') \<noteq> NULL"
    "all_reachable (capacity_m t) (es'[p' := (es' ! p')\<lparr>key := NULL\<rparr>])"
    "mset (filter ?live es') - {#es' ! p'#} = mset (filter ?live ?es) - {#?es ! p#}"
    by blast
  define t' where "t' = t\<lparr>map_m := es'[p' := (es' ! p')\<lparr>key := NULL\<rparr>],
    occupancy_m := occupancy_m t - 1\<rparr>"
  have t': "map_m t' = es'[p' := (es' ! p')\<lparr>key := NULL\<rparr>]" "occupancy_m t' = occupancy_m t - 1"
    "capacity_m t' = capacity_m t" "match_m t' = match_m t"
    by (simp_all add: t'_def)
  have rem: "Remove t k h = Some (t', val (?es ! p))"
    using pr lp lt r(1) by (simp add: Remove_def Let_def t'_def)
  have "mset (filter ?live (es'[p' := (es' ! p')\<lparr>key := NULL\<rparr>])) + {#es' ! p'#} =
      mset (filter ?live es')"
    using mset_filter_update[of p' es' ?live "(es' ! p')\<lparr>key := NULL\<rparr>"] r(2,3,4) by simp
  moreover have "es' ! p' \<in># mset (filter ?live es')" using r(2,3,4) by simp
  ultimately have "mset (filter ?live (es'[p' := (es' ! p')\<lparr>key := NULL\<rparr>])) =
      mset (filter ?live es') - {#es' ! p'#}"
    by (metis add_mset_add_single add_mset_remove_trivial)
  then have ent: "mset (entries t') = mset (entries t) - {#?es ! p#}"
    using r(6) by (simp add: entries_def t'(1))
  have mem: "?es ! p \<in># mset (entries t)" using p len lp by (simp add: entries_def)
  have s1: "size (mset (entries t')) = size (mset (entries t) - {#?es ! p#})"
    by (rule arg_cong[OF ent])
  have s2: "size (mset (entries t) - {#?es ! p#}) = size (mset (entries t)) - 1"
    using mem by (rule size_Diff_singleton)
  have sz: "length (entries t') = length (entries t) - 1"
    using trans[OF s1 s2] by (simp only: size_mset)
  have oc: "unat (occupancy_m t) = length (entries t)" using wf by (simp add: hashmap_wf_def)
  have "0 < length (entries t)" using mem by (cases "entries t") auto
  then have "occupancy_m t \<noteq> 0" using oc by (metis unat_0 less_numeral_extra(3))
  then have oc': "unat (occupancy_m t') = length (entries t')"
    using sz oc by (simp add: unat_minus_one t'(2))
  have sub: "mset (entries t') \<subseteq># mset (entries t)" unfolding ent by (rule diff_subset_eq_self)
  have uk0: "unique_keys (match_m t) (mset (entries t))" using wf by (simp add: hashmap_wf_def)
  have uk: "unique_keys (match_m t') (mset (entries t'))"
    unfolding t'(4) using uk0 sub by (rule unique_keys_subset)
  have wf': "hashmap_wf t'"
    unfolding hashmap_wf_def t'(3) using wf oc' uk r(2,5) by (simp add: hashmap_wf_def t')
  have le: "unat (occupancy_m t') \<le> unat (occupancy_m t)" using oc' sz oc by simp
  then have "unat (occupancy_m t') div 4 \<le> unat (occupancy_m t) div 4" by (rule div_le_mono)
  with le have "load_ok t'" using load unfolding load_ok_def t'(3) by linarith
  with wf' have "hashmap_inv t'" by (simp add: hashmap_inv_def)
  with rem ent t' show ?thesis by simp
qed

lemma removed_absent:
  assumes wf: "hashmap_wf t" and e0: "e0 \<in># mset (entries t)"
    and m: "hash e0 = h" "match_m t k (key e0)"
  shows "\<forall>x \<in># mset (entries t) - {#e0#}. \<not> (hash x = h \<and> match_m t k (key x))"
proof
  fix x assume x: "x \<in># mset (entries t) - {#e0#}"
  have eq: "equality_predicate (match_m t)" and uk: "unique_keys (match_m t) (mset (entries t))"
    using wf by (simp_all add: hashmap_wf_def)
  show "\<not> (hash x = h \<and> match_m t k (key x))"
  proof
    assume a: "hash x = h \<and> match_m t k (key x)"
    have "match_m t (key e0) k" using eq m(2) unfolding equality_predicate_def by blast
    with a have "match_m t (key e0) (key x)" using eq unfolding equality_predicate_def by blast
    moreover have "hash e0 = hash x" using a m(1) by simp
    ultimately show False using uk e0 x unfolding unique_keys_def by blast
  qed
qed

section \<open>An example table\<close>

lemma equality_predicate_PointersMatch: "equality_predicate PointersMatch"
  by (simp add: equality_predicate_def PointersMatch_def)

lemma abc_reach: "all_reachable (capacity_m abc_table) (map_m abc_table)"
  by code_simp

lemma abc_unique: "unique_keys PointersMatch (mset (entries abc_table))"
  by code_simp

lemma abc_count: "unat (occupancy_m abc_table) = length (entries abc_table)"
  by code_simp

lemma abc_inv: "hashmap_inv abc_table"
proof -
  have "match_m abc_table = PointersMatch" "capacity_m abc_table = 8"
    "length (map_m abc_table) = 8" "occupancy_m abc_table = 3"
    by (simp_all add: abc_table_def)
  then show ?thesis
    using abc_reach abc_unique abc_count equality_predicate_PointersMatch IsPowerOfTwo32_8
    by (simp add: hashmap_inv_def hashmap_wf_def load_ok_def)
qed

section \<open>Removing a key\<close>

lemma Lookup_SomeD:
  assumes "Lookup t k h = Some (Some p)"
  shows "k \<noteq> NULL" and "Probe t k h = Some p" and "key (map_m t ! p) \<noteq> NULL"
proof -
  from assms obtain q where q: "Probe t k h = Some q"
    by (cases "Probe t k h") (simp_all add: Lookup_def)
  with assms show "Probe t k h = Some p" "key (map_m t ! p) \<noteq> NULL"
    by (auto simp: Lookup_def split: if_splits)
  show "k \<noteq> NULL" using q by (auto simp: Probe_def split: if_splits)
qed

lemma Lookup_absent:
  assumes "hashmap_inv t" and "k \<noteq> NULL"
    and "\<forall>e \<in># mset (entries t). \<not> (hash e = h \<and> match_m t k (key e))"
  shows "Lookup t k h = Some None"
proof -
  have wf: "hashmap_wf t" and lt: "occupancy_m t < capacity_m t"
    using assms(1) by (simp_all add: hashmap_inv_def load_ok_less)
  from probe_absent[OF wf lt assms(2,3)] show ?thesis by (auto simp: Lookup_def)
qed

text \<open>
  C8. For a table that satisfies the invariants and a key (not \<^verbatim>\<open>NULL\<close>) and hash that no entry
  of the table has, \<^verbatim>\<open>Remove\<close> returns \<^verbatim>\<open>NULL\<close> and the table as it was: occupancy, capacity
  and every slot.
\<close>

theorem C8_remove_absent_is_noop:
  assumes "hashmap_inv t" and "k \<noteq> NULL"
    and "\<forall>e \<in># mset (entries t). \<not> (hash e = h \<and> match_m t k (key e))"
  shows "Lookup t k h = Some None \<and> Remove t k h = Some (t, NULL)"
proof -
  have wf: "hashmap_wf t" and lt: "occupancy_m t < capacity_m t"
    using assms(1) by (simp_all add: hashmap_inv_def load_ok_less)
  from probe_absent[OF wf lt assms(2,3)]
  obtain p where p: "Probe t k h = Some p" "key (map_m t ! p) = NULL" by blast
  then have "Remove t k h = Some (t, NULL)" by (rule Remove_absent)
  moreover have "Lookup t k h = Some None" using p by (simp add: Lookup_def)
  ultimately show ?thesis by simp
qed

lemma abc_absent_13:
  "\<forall>e \<in># mset (entries abc_table). \<not> (hash e = 0 \<and> match_m abc_table 13 (key e))"
  by code_simp

theorem C8_witness:
  "hashmap_inv abc_table \<and> (13::ptr) \<noteq> NULL \<and> Lookup abc_table 13 0 = Some None \<and>
   Remove abc_table 13 0 = Some (abc_table, NULL)"
  using C8_remove_absent_is_noop[OF abc_inv _ abc_absent_13] abc_inv by simp

lemma ideal_mod:
  assumes "IsPowerOfTwo32 cap"
  shows "ideal cap h = unat h mod unat cap"
proof -
  from assms obtain n where n: "n < 32" "cap = 2 ^ n" by (auto simp: IsPowerOfTwo32_def)
  have "h AND (cap - 1) = take_bit n h" unfolding n(2) by (simp add: take_bit_eq_mask mask_eq_exp_minus_1)
  then have "ideal cap h = take_bit n (unat h)" by (simp add: ideal_def unsigned_take_bit_eq)
  also have "\<dots> = unat h mod 2 ^ n" by (simp add: take_bit_eq_mod)
  finally show ?thesis using n by (simp add: unat_2p32)
qed

lemma Remove_present_full:
  assumes inv: "hashmap_inv t" and l: "Lookup t k h = Some (Some p)"
  shows "\<exists>t'. Remove t k h = Some (t', val (map_m t ! p)) \<and> hashmap_inv t' \<and>
    mset (entries t') = mset (entries t) - {#map_m t ! p#} \<and>
    capacity_m t' = capacity_m t \<and> occupancy_m t' = occupancy_m t - 1 \<and>
    unat (occupancy_m t') + 1 = unat (occupancy_m t) \<and>
    match_m t' = match_m t \<and> Lookup t' k h = Some None"
proof -
  note d = Lookup_SomeD[OF l]
  have wf: "hashmap_wf t" and lt: "occupancy_m t < capacity_m t"
    using inv by (simp_all add: hashmap_inv_def load_ok_less)
  from Remove_present[OF inv d] obtain t' where t': "Remove t k h = Some (t', val (map_m t ! p))"
    "hashmap_inv t'" "mset (entries t') = mset (entries t) - {#map_m t ! p#}"
    "capacity_m t' = capacity_m t" "occupancy_m t' = occupancy_m t - 1" "match_m t' = match_m t"
    by blast
  note pl = probe_live[OF wf lt d]
  have len: "length (map_m t) = unat (capacity_m t)" using wf by (simp add: hashmap_wf_def)
  have mem: "map_m t ! p \<in># mset (entries t)" using pl d(3) len by (simp add: entries_def)
  have "\<forall>x \<in># mset (entries t'). \<not> (hash x = h \<and> match_m t' k (key x))"
    unfolding t'(3,6) using wf mem pl by (intro removed_absent) auto
  with t'(2) d(1) have la: "Lookup t' k h = Some None" by (intro Lookup_absent)
  have s2: "size (mset (entries t) - {#map_m t ! p#}) = size (mset (entries t)) - 1"
    using mem by (rule size_Diff_singleton)
  have "size (mset (entries t')) = size (mset (entries t)) - 1"
    using trans[OF arg_cong[OF t'(3), of size] s2] .
  then have sz: "length (entries t') = length (entries t) - 1" by (simp only: size_mset)
  have pos: "0 < length (entries t)" using mem by (cases "entries t") auto
  have "unat (occupancy_m t') = length (entries t')" "unat (occupancy_m t) = length (entries t)"
    using t'(2) wf by (simp_all add: hashmap_inv_def hashmap_wf_def)
  with sz pos have "unat (occupancy_m t') + 1 = unat (occupancy_m t)" by simp
  with t' la show ?thesis by blast
qed

text \<open>
  C1. For a table that satisfies the invariants and a key that \<^verbatim>\<open>Lookup\<close> finds, in slot \<open>p\<close>:
  \<^verbatim>\<open>Remove\<close> returns, with the value of the entry and a table that satisfies the invariants;
  every other entry of the table is in a slot \<open>j\<close> of the new table that is reachable from the
  entry's initial position (its hash modulo the capacity) with no empty slot before it, and
  \<^verbatim>\<open>Lookup\<close> with the entry's key and hash finds slot \<open>j\<close>; \<^verbatim>\<open>Lookup\<close> of the removed key finds
  nothing.
\<close>

theorem C1_remove_keeps_others_reachable:
  assumes "hashmap_inv t" and "Lookup t k h = Some (Some p)"
  shows "\<exists>t'. Remove t k h = Some (t', val (map_m t ! p)) \<and> hashmap_inv t' \<and>
    (\<forall>i \<in> {0..<unat (capacity_m t)}. i \<noteq> p \<and> key (map_m t ! i) \<noteq> NULL \<longrightarrow>
       (\<exists>j. map_m t' ! j = map_m t ! i \<and>
            ideal (capacity_m t') (hash (map_m t ! i)) =
              unat (hash (map_m t ! i)) mod unat (capacity_m t') \<and>
            reachable (capacity_m t') (map_m t') j \<and>
            Lookup t' (key (map_m t ! i)) (hash (map_m t ! i)) = Some (Some j))) \<and>
    Lookup t' k h = Some None"
proof -
  from Remove_present_full[OF assms] obtain t' where t':
    "Remove t k h = Some (t', val (map_m t ! p))" "hashmap_inv t'"
    "mset (entries t') = mset (entries t) - {#map_m t ! p#}" "Lookup t' k h = Some None"
    by blast
  have wf: "hashmap_wf t" using assms(1) by (simp add: hashmap_inv_def)
  have len: "length (map_m t) = unat (capacity_m t)" using wf by (simp add: hashmap_wf_def)
  have wf': "hashmap_wf t'" using t'(2) by (simp add: hashmap_inv_def)
  have len': "length (map_m t') = unat (capacity_m t')" using wf' by (simp add: hashmap_wf_def)
  have p2: "IsPowerOfTwo32 (capacity_m t')" using wf' by (simp add: hashmap_wf_def)
  have p: "p < length (map_m t)"
    using probe_live[OF wf load_ok_less Lookup_SomeD[OF assms(2)]] assms(1) len
    by (simp add: hashmap_inv_def)
  have "\<forall>i \<in> {0..<unat (capacity_m t)}. i \<noteq> p \<and> key (map_m t ! i) \<noteq> NULL \<longrightarrow>
       (\<exists>j. map_m t' ! j = map_m t ! i \<and>
            ideal (capacity_m t') (hash (map_m t ! i)) =
              unat (hash (map_m t ! i)) mod unat (capacity_m t') \<and>
            reachable (capacity_m t') (map_m t') j \<and>
            Lookup t' (key (map_m t ! i)) (hash (map_m t ! i)) = Some (Some j))"
  proof (intro ballI impI)
    fix i assume i: "i \<in> {0..<unat (capacity_m t)}" and a: "i \<noteq> p \<and> key (map_m t ! i) \<noteq> NULL"
    let ?e = "map_m t ! i"
    have "?e \<in># mset (filter (\<lambda>e. key e \<noteq> NULL) (map_m t)) - {#map_m t ! p#}"
      using p i len a by (intro filter_nth_mset_diff) auto
    then have mem: "?e \<in># mset (entries t')" using t'(3) by (simp add: entries_def)
    from Lookup_entry[OF t'(2) mem] obtain j where j: "j < unat (capacity_m t')"
      "Probe t' (key ?e) (hash ?e) = Some j" "map_m t' ! j = ?e" by blast
    have "reachable (capacity_m t') (map_m t') j"
      using wf' j(1,3) a len' by (simp add: hashmap_wf_def all_reachable_def)
    moreover have "Lookup t' (key ?e) (hash ?e) = Some (Some j)"
      using j(2,3) a by (simp add: Lookup_def)
    ultimately show "\<exists>j. map_m t' ! j = ?e \<and>
            ideal (capacity_m t') (hash ?e) = unat (hash ?e) mod unat (capacity_m t') \<and>
            reachable (capacity_m t') (map_m t') j \<and>
            Lookup t' (key ?e) (hash ?e) = Some (Some j)"
      using j(3) ideal_mod[OF p2] by blast
  qed
  with t' show ?thesis by blast
qed

lemma abc_lookup_11: "Lookup abc_table 11 8 = Some (Some 1)"
  by code_simp

theorem C1_witness:
  "hashmap_inv abc_table \<and> Lookup abc_table 11 8 = Some (Some 1) \<and>
   (\<exists>t'. Remove abc_table 11 8 = Some (t', val (map_m abc_table ! 1)) \<and> hashmap_inv t' \<and>
     (\<exists>j. map_m t' ! j = map_m abc_table ! 2 \<and> reachable (capacity_m t') (map_m t') j \<and>
          Lookup t' 12 16 = Some (Some j)) \<and>
     (\<exists>j. map_m t' ! j = map_m abc_table ! 0 \<and> reachable (capacity_m t') (map_m t') j \<and>
          Lookup t' 10 0 = Some (Some j)) \<and>
     Lookup t' 11 8 = Some None)"
proof -
  from C1_remove_keeps_others_reachable[OF abc_inv abc_lookup_11]
  obtain t' where t': "Remove abc_table 11 8 = Some (t', val (map_m abc_table ! 1))"
    "hashmap_inv t'"
    "\<forall>i \<in> {0..<unat (capacity_m abc_table)}. i \<noteq> 1 \<and> key (map_m abc_table ! i) \<noteq> NULL \<longrightarrow>
       (\<exists>j. map_m t' ! j = map_m abc_table ! i \<and>
            ideal (capacity_m t') (hash (map_m abc_table ! i)) =
              unat (hash (map_m abc_table ! i)) mod unat (capacity_m t') \<and>
            reachable (capacity_m t') (map_m t') j \<and>
            Lookup t' (key (map_m abc_table ! i)) (hash (map_m abc_table ! i)) = Some (Some j))"
    "Lookup t' 11 8 = Some None" by blast
  have k: "key (map_m abc_table ! 2) = 12" "hash (map_m abc_table ! 2) = 16"
    "key (map_m abc_table ! 0) = 10" "hash (map_m abc_table ! 0) = 0"
    "unat (capacity_m abc_table) = 8"
    by (simp_all add: abc_table_def)
  have "\<exists>j. map_m t' ! j = map_m abc_table ! 2 \<and> reachable (capacity_m t') (map_m t') j \<and>
          Lookup t' 12 16 = Some (Some j)"
    using bspec[OF t'(3), of 2] k by auto
  moreover have "\<exists>j. map_m t' ! j = map_m abc_table ! 0 \<and> reachable (capacity_m t') (map_m t') j \<and>
          Lookup t' 10 0 = Some (Some j)"
    using bspec[OF t'(3), of 0] k by auto
  ultimately show ?thesis using t'(1,2,4) abc_inv abc_lookup_11 by blast
qed

text \<open>
  C10. \<^verbatim>\<open>Remove\<close> returns \<^verbatim>\<open>NULL\<close> in two situations: when no entry has the key, and then the
  table is as it was; and when the entry of the key has the value \<^verbatim>\<open>NULL\<close>, and then the entry
  is deleted all the same: the occupancy is one less, the key is no longer found and the
  table is another one.
\<close>

theorem C10_remove_null_is_ambiguous:
  assumes "hashmap_inv t" and "k \<noteq> NULL"
  shows "((\<forall>e \<in># mset (entries t). \<not> (hash e = h \<and> match_m t k (key e))) \<longrightarrow>
            Remove t k h = Some (t, NULL)) \<and>
         (\<forall>p. Lookup t k h = Some (Some p) \<and> val (map_m t ! p) = NULL \<longrightarrow>
            (\<exists>t'. Remove t k h = Some (t', NULL) \<and> t' \<noteq> t \<and>
                  occupancy_m t' = occupancy_m t - 1 \<and>
                  unat (occupancy_m t') + 1 = unat (occupancy_m t) \<and>
                  mset (entries t') = mset (entries t) - {#map_m t ! p#} \<and>
                  Lookup t' k h = Some None))"
proof (intro conjI impI allI)
  assume a: "\<forall>e \<in># mset (entries t). \<not> (hash e = h \<and> match_m t k (key e))"
  have wf: "hashmap_wf t" and lt: "occupancy_m t < capacity_m t"
    using assms(1) by (simp_all add: hashmap_inv_def load_ok_less)
  from probe_absent[OF wf lt assms(2) a]
  obtain p where "Probe t k h = Some p" "key (map_m t ! p) = NULL" by blast
  then show "Remove t k h = Some (t, NULL)" by (rule Remove_absent)
next
  fix p assume a: "Lookup t k h = Some (Some p) \<and> val (map_m t ! p) = NULL"
  from Remove_present_full[OF assms(1) conjunct1[OF a]] obtain t' where t':
    "Remove t k h = Some (t', val (map_m t ! p))"
    "mset (entries t') = mset (entries t) - {#map_m t ! p#}"
    "occupancy_m t' = occupancy_m t - 1"
    "unat (occupancy_m t') + 1 = unat (occupancy_m t)"
    "Lookup t' k h = Some None" by blast
  have "t' \<noteq> t" using t'(4) by auto
  with t' a show "\<exists>t'. Remove t k h = Some (t', NULL) \<and> t' \<noteq> t \<and>
                  occupancy_m t' = occupancy_m t - 1 \<and>
                  unat (occupancy_m t') + 1 = unat (occupancy_m t) \<and>
                  mset (entries t') = mset (entries t) - {#map_m t ! p#} \<and>
                  Lookup t' k h = Some None" by auto
qed

lemma abc_absent_14:
  "\<forall>e \<in># mset (entries abc_table). \<not> (hash e = 3 \<and> match_m abc_table 14 (key e))"
  by code_simp

lemma abc_val_11: "val (map_m abc_table ! 1) = NULL"
  by (simp add: abc_table_def)

theorem C10_witness:
  "hashmap_inv abc_table \<and> (14::ptr) \<noteq> NULL \<and> (11::ptr) \<noteq> NULL \<and>
   Remove abc_table 14 3 = Some (abc_table, NULL) \<and>
   Lookup abc_table 11 8 = Some (Some 1) \<and> val (map_m abc_table ! 1) = NULL \<and>
   (\<exists>t'. Remove abc_table 11 8 = Some (t', NULL) \<and> t' \<noteq> abc_table \<and>
         unat (occupancy_m t') + 1 = unat (occupancy_m abc_table) \<and>
         Lookup t' 11 8 = Some None)"
proof -
  have n: "(14::ptr) \<noteq> NULL" "(11::ptr) \<noteq> NULL" by simp_all
  have "Remove abc_table 14 3 = Some (abc_table, NULL)"
    using C10_remove_null_is_ambiguous[OF abc_inv n(1), of 3] abc_absent_14 by blast
  moreover have "\<exists>t'. Remove abc_table 11 8 = Some (t', NULL) \<and> t' \<noteq> abc_table \<and>
         unat (occupancy_m t') + 1 = unat (occupancy_m abc_table) \<and>
         Lookup t' 11 8 = Some None"
    using C10_remove_null_is_ambiguous[OF abc_inv n(2), of 8] abc_lookup_11 abc_val_11 by blast
  ultimately show ?thesis using abc_inv abc_lookup_11 abc_val_11 n by blast
qed

text \<open>
  C7. For a table that satisfies the invariants: when \<^verbatim>\<open>LookupOrInsert\<close> returns an entry, a
  second call with the same key and hash returns the same entry (the same slot) and the
  table the first call left: occupancy, capacity and every slot. The first call returns
  for every key but \<^verbatim>\<open>NULL\<close> when the capacity is at most \<open>2 ^ 30\<close>, so that doubling it fits
  32 bits.
\<close>

theorem C7_lookup_or_insert_idempotent:
  assumes "hashmap_inv t"
  shows "(\<forall>t1 p. LookupOrInsert t k h = Some (t1, p) \<longrightarrow>
            key (map_m t1 ! p) \<noteq> NULL \<and> LookupOrInsert t1 k h = Some (t1, p)) \<and>
         (k \<noteq> NULL \<and> unat (capacity_m t) \<le> 2 ^ 30 \<longrightarrow>
            (\<exists>t1 p. LookupOrInsert t k h = Some (t1, p)))"
proof (intro conjI impI allI)
  fix t1 p assume r: "LookupOrInsert t k h = Some (t1, p)"
  have k: "k \<noteq> NULL"
  proof
    assume "k = NULL"
    then have "Probe t k h = None" by (simp add: Probe_def)
    then have "LookupOrInsert t k h = None" by (subst LookupOrInsert.simps) simp
    with r show False by simp
  qed
  from LookupOrInsert_inv[OF assms k r]
  have i: "hashmap_inv t1" "p < unat (capacity_m t1)" "key (map_m t1 ! p) \<noteq> NULL"
    "hash (map_m t1 ! p) = h" "match_m t1 k (key (map_m t1 ! p))" by blast+
  then show "key (map_m t1 ! p) \<noteq> NULL" by simp
  show "LookupOrInsert t1 k h = Some (t1, p)" using i(1) k i(2-5) by (rule LookupOrInsert_present)
next
  assume "k \<noteq> NULL \<and> unat (capacity_m t) \<le> 2 ^ 30"
  then show "\<exists>t1 p. LookupOrInsert t k h = Some (t1, p)"
    using LookupOrInsert_total[OF assms] by blast
qed

lemma abc_cap: "unat (capacity_m abc_table) \<le> 2 ^ 30"
  by (simp add: abc_table_def)

theorem C7_witness:
  "hashmap_inv abc_table \<and> (13::ptr) \<noteq> NULL \<and> unat (capacity_m abc_table) \<le> 2 ^ 30 \<and>
   (\<exists>t1 p. LookupOrInsert abc_table 13 24 = Some (t1, p) \<and> key (map_m t1 ! p) \<noteq> NULL \<and>
      LookupOrInsert t1 13 24 = Some (t1, p))"
proof -
  note c = C7_lookup_or_insert_idempotent[OF abc_inv, of 13 24]
  have n: "(13::ptr) \<noteq> NULL" by simp
  have "\<exists>t1 p. LookupOrInsert abc_table 13 24 = Some (t1, p)" using c abc_cap n by blast
  then obtain t1 p where r: "LookupOrInsert abc_table 13 24 = Some (t1, p)" by blast
  with c have "key (map_m t1 ! p) \<noteq> NULL \<and> LookupOrInsert t1 13 24 = Some (t1, p)" by blast
  with r show ?thesis using abc_inv abc_cap n by blast
qed

section \<open>The invariants after every operation\<close>

lemma new_inv:
  assumes "equality_predicate m" and "HashMapImpl_new m c = Some t"
  shows "hashmap_inv t \<and> entries t = [] \<and> capacity_m t = c \<and> occupancy_m t = 0 \<and> match_m t = m"
proof -
  let ?t = "\<lparr>match_m = m, map_m = [], capacity_m = 0, occupancy_m = 0\<rparr>"
  have p2: "IsPowerOfTwo32 c" using assms(2)
    by (auto simp: HashMapImpl_new_def Initialize_def split: if_splits)
  from Initialize_wf[OF p2, of ?t] assms obtain t0 where t0: "Initialize ?t c = Some t0"
    "hashmap_wf t0" "entries t0 = []" "capacity_m t0 = c" "occupancy_m t0 = 0" "match_m t0 = m"
    by auto
  have "t0 = t" using t0(1) assms(2) by (simp add: HashMapImpl_new_def)
  moreover have "0 < unat c" using p2 IsPowerOfTwo32_nonzero unat_gt_0 by blast
  ultimately show ?thesis using t0 by (simp add: hashmap_inv_def load_ok_def)
qed

lemma new_total:
  "IsPowerOfTwo32 c \<Longrightarrow> \<exists>t. HashMapImpl_new m c = Some t"
  by (simp add: HashMapImpl_new_def Initialize_def)

lemma Clear_inv:
  assumes "hashmap_inv t"
  shows "hashmap_inv (Clear t)"
proof -
  have wf: "hashmap_wf t" using assms by (simp add: hashmap_inv_def)
  have e: "entries (Clear t) = []" by (rule entries_Clear)
  have k: "\<forall>i < length (map_m (Clear t)). key (map_m (Clear t) ! i) = NULL" by (simp add: Clear_def)
  have "all_reachable (capacity_m (Clear t)) (map_m (Clear t))" using k by (simp add: all_reachable_def)
  moreover have "length (map_m (Clear t)) = length (map_m t)" "capacity_m (Clear t) = capacity_m t"
    "occupancy_m (Clear t) = 0" "match_m (Clear t) = match_m t"
    by (simp_all add: Clear_def)
  moreover have "0 < unat (capacity_m t)"
    using wf IsPowerOfTwo32_nonzero unat_gt_0 unfolding hashmap_wf_def by blast
  ultimately show ?thesis
    using wf e by (simp add: hashmap_inv_def hashmap_wf_def unique_keys_def load_ok_def)
qed

lemma Remove_inv:
  assumes inv: "hashmap_inv t" and r: "Remove t k h = Some (t', v)"
  shows "hashmap_inv t'"
proof -
  from r obtain p where p: "Probe t k h = Some p"
    by (cases "Probe t k h") (simp_all add: Remove_def)
  then have k: "k \<noteq> NULL" by (auto simp: Probe_def split: if_splits)
  show ?thesis
  proof (cases "key (map_m t ! p) = NULL")
    case True
    from Remove_absent[OF p True] r inv show ?thesis by simp
  next
    case False
    from Remove_present[OF inv k p False] r show ?thesis by auto
  qed
qed

lemma LookupOrInsert_inv':
  assumes inv: "hashmap_inv t" and r: "LookupOrInsert t k h = Some (t', p)"
  shows "hashmap_inv t'"
proof -
  have k: "k \<noteq> NULL"
  proof
    assume "k = NULL"
    then have "Probe t k h = None" by (simp add: Probe_def)
    then have "LookupOrInsert t k h = None" by (subst LookupOrInsert.simps) simp
    with r show False by simp
  qed
  from LookupOrInsert_inv[OF inv k r] show ?thesis by simp
qed

lemma all_reachable_cong:
  assumes "length es' = length es"
    and "\<forall>j < length es. key (es' ! j) = key (es ! j) \<and> hash (es' ! j) = hash (es ! j)"
    and "length es = unat cap" and "cap \<noteq> 0"
    and "all_reachable cap es"
  shows "all_reachable cap es'"
  unfolding all_reachable_def
proof (intro ballI impI)
  fix i assume i: "i \<in> {0..<length es'}" and l: "key (es' ! i) \<noteq> NULL"
  then have li: "key (es ! i) \<noteq> NULL" and hi: "hash (es' ! i) = hash (es ! i)"
    using assms(1,2) by auto
  then have r: "reachable cap es i" using assms(1,5) i by (simp add: all_reachable_def)
  have "\<forall>j \<in> between (unat cap) (ideal cap (hash (es ! i))) i. key (es' ! j) \<noteq> NULL"
  proof
    fix j assume j: "j \<in> between (unat cap) (ideal cap (hash (es ! i))) i"
    then have "key (es ! j) \<noteq> NULL" using r by (simp add: reachable_def)
    moreover have "j < length es"
      using between_less[OF ideal_less[OF assms(4)] _ j] i assms(1,3) by simp
    ultimately show "key (es' ! j) \<noteq> NULL" using assms(2) by simp
  qed
  then show "reachable cap es' i" using hi by (simp add: reachable_def)
qed

lemma set_value_inv:
  assumes inv: "hashmap_inv t"
  shows "hashmap_inv (set_value t p v)"
proof (cases "p < length (map_m t)")
  case False
  then have "set_value t p v = t" by (simp add: set_value_def list_update_beyond not_less)
  with inv show ?thesis by simp
next
  case True
  let ?es = "map_m t" and ?live = "\<lambda>e. key e \<noteq> NULL"
  let ?x = "(?es ! p)\<lparr>val := v\<rparr>"
  let ?es' = "?es[p := ?x]"
  have wf: "hashmap_wf t" and load: "load_ok t" using inv by (simp_all add: hashmap_inv_def)
  have len: "length ?es = unat (capacity_m t)" and c0: "capacity_m t \<noteq> 0"
    using wf by (simp_all add: hashmap_wf_def IsPowerOfTwo32_nonzero)
  have same: "\<forall>j < length ?es. key (?es' ! j) = key (?es ! j) \<and> hash (?es' ! j) = hash (?es ! j)"
    using True by (auto simp: nth_list_update)
  have ar: "all_reachable (capacity_m t) ?es'"
    using same len c0 wf by (intro all_reachable_cong[of ?es' ?es]) (simp_all add: hashmap_wf_def)
  have upd: "mset (filter ?live ?es') + (if ?live (?es ! p) then {#?es ! p#} else {#}) =
      mset (filter ?live ?es) + (if ?live ?x then {#?x#} else {#})"
    using True by (rule mset_filter_update)
  have uk0: "unique_keys (match_m t) (mset (filter ?live ?es))"
    using wf by (simp add: hashmap_wf_def entries_def)
  have eq: "equality_predicate (match_m t)" using wf by (simp add: hashmap_wf_def)
  have "unique_keys (match_m t) (mset (filter ?live ?es')) \<and>
      length (filter ?live ?es') = length (filter ?live ?es)"
  proof (cases "?live (?es ! p)")
    case False
    with upd have "mset (filter ?live ?es') = mset (filter ?live ?es)" by simp
    with uk0 show ?thesis by (metis size_mset)
  next
    case live: True
    let ?M = "mset (filter ?live ?es) - {#?es ! p#}"
    have mem: "?es ! p \<in># mset (filter ?live ?es)" using True live by simp
    have "mset (filter ?live ?es') + {#?es ! p#} = mset (filter ?live ?es) + {#?x#}"
      using upd live by simp
    then have "mset (filter ?live ?es') + {#?es ! p#} = (?M + {#?x#}) + {#?es ! p#}"
      using mem by simp
    then have m': "mset (filter ?live ?es') = add_mset ?x ?M" by simp
    have ukM: "unique_keys (match_m t) ?M"
      using uk0 diff_subset_eq_self by (rule unique_keys_subset)
    have "\<forall>y \<in># ?M. \<not> (hash y = hash ?x \<and> match_m t (key ?x) (key y))"
    proof
      fix y assume "y \<in># ?M"
      with uk0 mem have "\<not> (hash (?es ! p) = hash y \<and> match_m t (key (?es ! p)) (key y))"
        unfolding unique_keys_def by blast
      then show "\<not> (hash y = hash ?x \<and> match_m t (key ?x) (key y))" by auto
    qed
    with ukM eq have "unique_keys (match_m t) (add_mset ?x ?M)" by (intro unique_keys_add)
    moreover have "size (add_mset ?x ?M) = size (mset (filter ?live ?es))"
    proof -
      have s1: "size ?M = size (mset (filter ?live ?es)) - 1" using mem by (rule size_Diff_singleton)
      have "mset (filter ?live ?es) \<noteq> {#}" using mem by auto
      then have s2: "0 < size (mset (filter ?live ?es))" by (simp only: nonempty_has_size)
      show ?thesis unfolding size_add_mset s1 using s2 by linarith
    qed
    ultimately show ?thesis unfolding m'[symmetric] by (metis size_mset)
  qed
  then have "hashmap_wf (set_value t p v)"
    using wf ar by (simp add: hashmap_wf_def set_value_def entries_def)
  moreover have "load_ok (set_value t p v)" using load by (simp add: load_ok_def set_value_def)
  ultimately show ?thesis by (simp add: hashmap_inv_def)
qed

lemma reach_table_inv: "reach_table t \<Longrightarrow> hashmap_inv t"
proof (induction rule: reach_table.induct)
  case (construct m c t)
  then show ?case using new_inv by blast
next
  case (lookup_or_insert t k h t' p)
  then show ?case using LookupOrInsert_inv' by blast
next
  case (remove t k h t' v)
  then show ?case using Remove_inv by blast
next
  case (clear t)
  show ?case using clear.IH by (rule Clear_inv)
next
  case (write_value t p v)
  show ?case using write_value.IH by (rule set_value_inv)
qed

text \<open>
  C4. A table that the constructor returned (for an equality predicate), and every table that
  \<^verbatim>\<open>LookupOrInsert\<close>, \<^verbatim>\<open>Remove\<close>, \<^verbatim>\<open>Clear\<close> or a write of a value leave from such a table,
  has a capacity that is a power of two, an occupancy strictly below the capacity, and a
  load factor of at most 0.8: \<open>5 * occupancy \<le> 4 * capacity\<close>. (\<^verbatim>\<open>Lookup\<close> does not change the
  table.)
\<close>

theorem C4_invariants_after_every_operation:
  assumes "reach_table t"
  shows "IsPowerOfTwo32 (capacity t) \<and> occupancy t < capacity t \<and>
    5 * unat (occupancy t) \<le> 4 * unat (capacity t)"
proof -
  have inv: "hashmap_inv t" using assms by (rule reach_table_inv)
  then have "load_ok t" by (simp add: hashmap_inv_def)
  then have "\<not> unat (capacity_m t) \<le> unat (occupancy_m t) + unat (occupancy_m t) div 4"
    by (simp add: load_ok_def)
  then have "\<not> 4 * unat (capacity_m t) \<le> 5 * unat (occupancy_m t)" by (simp add: trigger_nat)
  then have "5 * unat (occupancy_m t) \<le> 4 * unat (capacity_m t)" by linarith
  then have "5 * unat (occupancy t) \<le> 4 * unat (capacity t)"
    by (simp only: occupancy_def capacity_def)
  moreover have "occupancy t < capacity t"
    using inv by (simp add: hashmap_inv_def load_ok_less occupancy_def capacity_def)
  moreover have "IsPowerOfTwo32 (capacity t)"
    using inv by (simp add: hashmap_inv_def hashmap_wf_def capacity_def)
  ultimately show ?thesis by simp
qed

lemma new_empty8: "HashMapImpl_new PointersMatch kDefaultHashMapCapacity = Some empty8"
  using IsPowerOfTwo32_8
  by (simp add: HashMapImpl_new_def Initialize_def Clear_def Malloced_New_def empty8_def
      kDefaultHashMapCapacity_def)

lemma reach_empty8: "reach_table empty8"
  using equality_predicate_PointersMatch new_empty8 by (rule reach_table.construct)

theorem C4_witness:
  "reach_table empty8 \<and> IsPowerOfTwo32 (capacity empty8) \<and> occupancy empty8 < capacity empty8 \<and>
   5 * unat (occupancy empty8) \<le> 4 * unat (capacity empty8) \<and>
   (\<exists>t p. LookupOrInsert empty8 10 0 = Some (t, p) \<and> reach_table t \<and>
      IsPowerOfTwo32 (capacity t) \<and> occupancy t < capacity t \<and>
      5 * unat (occupancy t) \<le> 4 * unat (capacity t))"
proof -
  have "hashmap_inv empty8" using reach_empty8 by (rule reach_table_inv)
  moreover have "unat (capacity_m empty8) \<le> 2 ^ 30" by (simp add: empty8_def)
  moreover have "(10::ptr) \<noteq> NULL" by simp
  ultimately obtain t p where r: "LookupOrInsert empty8 10 0 = Some (t, p)"
    using LookupOrInsert_total by blast
  with reach_empty8 have "reach_table t" by (rule reach_table.lookup_or_insert)
  with r C4_invariants_after_every_operation[of t]
    C4_invariants_after_every_operation[OF reach_empty8] reach_empty8
  show ?thesis by blast
qed

subsection \<open>Iteration\<close>

lemma Next_unfold:
  assumes "length (map_m t) = unat (capacity_m t)" and "i < unat (capacity_m t)"
  shows "Next t (int i) = next_loop (map_m t) (unat (capacity_m t)) (Suc i)"
proof -
  have "int i < int (unat (capacity_m t))" using assms(2) by (simp only: of_nat_less_iff)
  then show ?thesis by (simp add: Next_def nat_add_distrib)
qed

lemma iterate_from_next_loop:
  assumes "length (map_m t) = unat (capacity_m t)" and "i \<le> unat (capacity_m t)"
  shows "iterate_from t (next_loop (map_m t) (unat (capacity_m t)) i) = Some (live_from t i)"
  using assms(2)
proof (induction "unat (capacity_m t) - i" arbitrary: i)
  case 0
  then have "i = unat (capacity_m t)" by simp
  then show ?case by (subst next_loop.simps, subst iterate_from.simps) (simp add: live_from_def)
next
  case (Suc d)
  let ?c = "unat (capacity_m t)"
  from Suc.hyps(2) have i: "i < ?c" by simp
  have d: "d = ?c - Suc i" using Suc.hyps(2) by simp
  have IH: "iterate_from t (next_loop (map_m t) ?c (Suc i)) = Some (live_from t (Suc i))"
    using Suc.hyps(1)[OF d] i by simp
  have up: "[i..<?c] = i # [Suc i..<?c]" using i by (simp add: upt_conv_Cons)
  show ?case
  proof (cases "key (map_m t ! i) \<noteq> NULL")
    case True
    then have n: "next_loop (map_m t) ?c i = Some (Some i)"
      using i assms(1) by (subst next_loop.simps) simp
    have l: "live_from t i = i # live_from t (Suc i)"
      unfolding live_from_def by (subst up) (simp add: True)
    show ?thesis unfolding n l
      by (subst iterate_from.simps) (simp add: Next_unfold[OF assms(1) i] IH)
  next
    case False
    then have n: "next_loop (map_m t) ?c i = next_loop (map_m t) ?c (Suc i)"
      using i assms(1) by (subst next_loop.simps) simp
    have l: "live_from t i = live_from t (Suc i)"
      unfolding live_from_def using False by (subst up) simp
    show ?thesis unfolding n l by (rule IH)
  qed
qed

lemma Start_unfold: "Start t = next_loop (map_m t) (unat (capacity_m t)) 0"
proof -
  have "(0::int) \<le> int (unat (capacity_m t))" by (rule of_nat_0_le_iff)
  then have "(-1::int) < int (unat (capacity_m t))" by linarith
  then show ?thesis by (simp add: Start_def Next_def)
qed

lemma iterate_eq:
  assumes "length (map_m t) = unat (capacity_m t)"
  shows "iterate t = Some (live_from t 0)"
  unfolding iterate_def Start_unfold using assms by (intro iterate_from_next_loop) simp_all

lemma next_loop_none:
  assumes "\<forall>j < c. key (es ! j) = NULL" and "length es = c"
  shows "next_loop es c i = Some None"
  using assms
proof (induction "c - i" arbitrary: i)
  case 0
  then show ?case by (subst next_loop.simps) simp
next
  case (Suc d)
  then have "i < c" "d = c - Suc i" by simp_all
  with Suc.hyps(1)[of "Suc i"] Suc.prems show ?case by (subst next_loop.simps) simp
qed

lemma entries_map_live: 
  "length (map_m t) = unat (capacity_m t) \<Longrightarrow> map (\<lambda>i. map_m t ! i) (live_from t 0) = entries t"
proof -
  assume len: "length (map_m t) = unat (capacity_m t)"
  have "map (\<lambda>i. map_m t ! i) (filter (\<lambda>j. key (map_m t ! j) \<noteq> NULL) [0..<length (map_m t)]) =
    filter (\<lambda>e. key e \<noteq> NULL) (map (\<lambda>i. map_m t ! i) [0..<length (map_m t)])"
    by (simp add: filter_map comp_def)
  also have "map (\<lambda>i. map_m t ! i) [0..<length (map_m t)] = map_m t" by (rule map_nth)
  finally show ?thesis using len by (simp add: live_from_def entries_def)
qed

text \<open>
  C6. For a table whose array has \<open>capacity_\<close> slots, and that is not changed meanwhile, the
  loop over \<^verbatim>\<open>Start()\<close> and \<^verbatim>\<open>Next(p)\<close> until \<^verbatim>\<open>NULL\<close> ends, and the slots it visits are the
  slots that hold an entry, each once, in strictly increasing order: the entries visited are
  the entries of the table. \<^verbatim>\<open>Start()\<close> returns \<^verbatim>\<open>NULL\<close> when the table has no entry.
\<close>

theorem C6_iteration_visits_live_entries_once:
  assumes "length (map_m t) = unat (capacity_m t)"
  shows "\<exists>vs. iterate t = Some vs \<and> sorted_wrt (<) vs \<and> distinct vs \<and>
    set vs = {i. i < unat (capacity_m t) \<and> key (map_m t ! i) \<noteq> NULL} \<and>
    map (\<lambda>i. map_m t ! i) vs = entries t \<and>
    (entries t = [] \<longrightarrow> Start t = Some None)"
proof -
  let ?vs = "live_from t 0"
  have "iterate t = Some ?vs" using assms by (rule iterate_eq)
  moreover have "sorted_wrt (<) ?vs"
    unfolding live_from_def by (intro sorted_wrt_filter) (simp add: sorted_wrt_upt)
  moreover have "distinct ?vs" by (simp add: live_from_def)
  moreover have "set ?vs = {i. i < unat (capacity_m t) \<and> key (map_m t ! i) \<noteq> NULL}"
    by (auto simp: live_from_def)
  moreover have "map (\<lambda>i. map_m t ! i) ?vs = entries t" using assms by (rule entries_map_live)
  moreover have "entries t = [] \<longrightarrow> Start t = Some None"
  proof
    assume "entries t = []"
    then have "\<forall>j < unat (capacity_m t). key (map_m t ! j) = NULL"
      using assms by (auto simp: entries_def filter_empty_conv)
    then show "Start t = Some None" unfolding Start_unfold using assms by (intro next_loop_none)
  qed
  ultimately show ?thesis by blast
qed

lemma abc_len: "length (map_m abc_table) = unat (capacity_m abc_table)"
  by (simp add: abc_table_def)

lemma abc_iterate: "iterate abc_table = Some [0, 1, 2]"
  by code_simp

theorem C6_witness:
  "length (map_m abc_table) = unat (capacity_m abc_table) \<and>
   iterate abc_table = Some [0, 1, 2] \<and>
   set [0, 1, 2] = {i. i < unat (capacity_m abc_table) \<and> key (map_m abc_table ! i) \<noteq> NULL} \<and>
   map (\<lambda>i. map_m abc_table ! i) [0, 1, 2] = entries abc_table \<and>
   length (map_m empty8) = unat (capacity_m empty8) \<and> entries empty8 = [] \<and>
   Start empty8 = Some None"
proof -
  have e: "length (map_m empty8) = unat (capacity_m empty8)" "entries empty8 = []"
    by (simp_all add: empty8_def entries_def)
  from C6_iteration_visits_live_entries_once[OF abc_len] abc_iterate
  have "set [0, 1, 2] = {i. i < unat (capacity_m abc_table) \<and> key (map_m abc_table ! i) \<noteq> NULL}"
    "map (\<lambda>i. map_m abc_table ! i) [0, 1, 2] = entries abc_table" by auto
  moreover have "Start empty8 = Some None"
    using C6_iteration_visits_live_entries_once[OF e(1)] e(2) by blast
  ultimately show ?thesis using abc_len abc_iterate e by blast
qed

subsection \<open>Sequences of insertions\<close>

lemma entries_set_value:
  assumes "p < length (map_m t)" and "key (map_m t ! p) \<noteq> NULL"
  shows "mset (entries (set_value t p x)) =
    add_mset ((map_m t ! p)\<lparr>val := x\<rparr>) (mset (entries t) - {#map_m t ! p#})"
proof -
  let ?live = "\<lambda>e. key e \<noteq> NULL" and ?es = "map_m t"
  let ?x = "(?es ! p)\<lparr>val := x\<rparr>"
  have mem: "?es ! p \<in># mset (filter ?live ?es)" using assms by simp
  have "mset (filter ?live (?es[p := ?x])) + {#?es ! p#} = mset (filter ?live ?es) + {#?x#}"
    using mset_filter_update[OF assms(1), of ?live ?x] assms(2) by simp
  also have "\<dots> = (mset (filter ?live ?es) - {#?es ! p#} + {#?x#}) + {#?es ! p#}"
    using mem by simp
  finally have "mset (filter ?live (?es[p := ?x])) = mset (filter ?live ?es) - {#?es ! p#} + {#?x#}"
    by (simp only: add_right_cancel)
  then show ?thesis by (simp add: entries_def set_value_def)
qed

lemma client_step:
  assumes inv: "hashmap_inv t" and k: "k \<noteq> NULL"
    and fresh: "\<forall>x \<in># mset (entries t). \<not> (hash x = h \<and> match_m t k (key x))"
    and bound: "Suc (unat (occupancy_m t)) \<le> N" "N + N div 4 < 2 ^ 31"
  shows "\<exists>t' p e. LookupOrInsert t k h = Some (t', p) \<and>
    hashmap_inv (case v of None \<Rightarrow> t' | Some x \<Rightarrow> set_value t' p x) \<and>
    mset (entries (case v of None \<Rightarrow> t' | Some x \<Rightarrow> set_value t' p x)) = add_mset e (mset (entries t)) \<and>
    content e = asked (k, h, v) \<and>
    match_m (case v of None \<Rightarrow> t' | Some x \<Rightarrow> set_value t' p x) = match_m t \<and>
    unat (occupancy_m (case v of None \<Rightarrow> t' | Some x \<Rightarrow> set_value t' p x)) = Suc (unat (occupancy_m t)) \<and>
    unat (capacity_m (case v of None \<Rightarrow> t' | Some x \<Rightarrow> set_value t' p x))
      \<le> max (unat (capacity_m t)) (2 * (N + N div 4))"
proof -
  have wf: "hashmap_wf t" and lt: "occupancy_m t < capacity_m t"
    using inv by (simp_all add: hashmap_inv_def load_ok_less)
  have p2: "IsPowerOfTwo32 (capacity_m t)" using wf by (simp add: hashmap_wf_def)
  have oc1: "unat (occupancy_m t + 1) = Suc (unat (occupancy_m t))"
    using unat_Suc_less[OF lt] by simp
  have small: "unat (capacity_m t) \<le> 2 ^ 30" if g: "grow_trigger (occupancy_m t + 1) (capacity_m t)"
  proof -
    have "unat (occupancy_m t + 1) + unat (occupancy_m t + 1) div 4 \<le> N + N div 4"
      using bound(1) oc1 by (simp add: add_mono div_le_mono)
    with bound(2) have b: "unat (occupancy_m t + 1) + unat (occupancy_m t + 1) div 4 < 2 ^ 31" by simp
    then have "unat (occupancy_m t + 1) + unat (occupancy_m t + 1) div 4 < 2 ^ 32" by simp
    from grow_trigger_unat[OF this, of "capacity_m t"] g b
    have "unat (capacity_m t) < 2 ^ 31" by simp
    with IsPowerOfTwo32_cases[OF p2] show ?thesis by (auto simp: unat_2p32)
  qed
  let ?e = "\<lparr>key = k, val = NULL, hash = h, order = sint (occupancy_m t)\<rparr>"
  have ok: "unat (capacity_m t) \<le> 2 ^ 30 \<or> \<not> grow_trigger (occupancy_m t + 1) (capacity_m t)"
    using small by blast
  from LookupOrInsert_absent[OF inv k fresh ok] obtain t' p where r:
    "LookupOrInsert t k h = Some (t', p)" "hashmap_inv t'" "p < unat (capacity_m t')"
    "map_m t' ! p = ?e" "mset (entries t') = add_mset ?e (mset (entries t))"
    "match_m t' = match_m t"
    "if grow_trigger (occupancy_m t + 1) (capacity_m t) then capacity_m t' = capacity_m t * 2
     else \<exists>q. Probe t k h = Some q \<and> key (map_m t ! q) = NULL \<and> t' = insert_at t q k h \<and> p = q"
    by blast
  have wf': "hashmap_wf t'" using r(2) by (simp add: hashmap_inv_def)
  have len': "length (map_m t') = unat (capacity_m t')" using wf' by (simp add: hashmap_wf_def)
  have "unat (occupancy_m t') = length (entries t')" using wf' by (simp add: hashmap_wf_def)
  also have "\<dots> = Suc (length (entries t))" using arg_cong[OF r(5), of size] by simp
  also have "length (entries t) = unat (occupancy_m t)" using wf by (simp add: hashmap_wf_def)
  finally have oc': "unat (occupancy_m t') = Suc (unat (occupancy_m t))" .
  have cap': "unat (capacity_m t') \<le> max (unat (capacity_m t)) (2 * (N + N div 4))"
  proof (cases "grow_trigger (occupancy_m t + 1) (capacity_m t)")
    case False
    with r(7) have "capacity_m t' = capacity_m t" by (auto simp: insert_at_def)
    then show ?thesis by simp
  next
    case True
    with r(7) have c: "capacity_m t' = capacity_m t * 2" by simp
    have "unat (occupancy_m t + 1) + unat (occupancy_m t + 1) div 4 \<le> N + N div 4"
      using bound(1) oc1 by (simp add: add_mono div_le_mono)
    moreover from this bound(2)
    have "unat (occupancy_m t + 1) + unat (occupancy_m t + 1) div 4 < 2 ^ 32" by simp
    from grow_trigger_unat[OF this, of "capacity_m t"] True
    have "unat (capacity_m t) \<le> unat (occupancy_m t + 1) + unat (occupancy_m t + 1) div 4" by simp
    ultimately have "unat (capacity_m t) \<le> N + N div 4" by simp
    then show ?thesis using IsPowerOfTwo32_double(2)[OF p2 small[OF True]] c by simp
  qed
  show ?thesis
  proof (cases v)
    case None
    have "content ?e = asked (k, h, v)" using None by (simp add: content_def asked_def)
    with r oc' cap' None show ?thesis by (intro exI[of _ t'] exI[of _ p] exI[of _ ?e]) simp
  next
    case (Some x)
    let ?t2 = "set_value t' p x"
    have pl: "p < length (map_m t')" using r(3) len' by simp
    have live: "key (map_m t' ! p) \<noteq> NULL" using r(4) k by simp
    have "mset (entries ?t2) = add_mset (?e\<lparr>val := x\<rparr>) (mset (entries t') - {#?e#})"
      using entries_set_value[OF pl live, of x] r(4) by simp
    then have ent: "mset (entries ?t2) = add_mset (?e\<lparr>val := x\<rparr>) (mset (entries t))"
      unfolding r(5) by simp
    have "content (?e\<lparr>val := x\<rparr>) = asked (k, h, v)" using Some by (simp add: content_def asked_def)
    moreover have "hashmap_inv ?t2" using r(2) by (rule set_value_inv)
    moreover have "match_m ?t2 = match_m t" "occupancy_m ?t2 = occupancy_m t'"
      "capacity_m ?t2 = capacity_m t'" using r(6) by (simp_all add: set_value_def)
    ultimately show ?thesis using r(1) ent oc' cap' Some
      by (intro exI[of _ t'] exI[of _ p] exI[of _ "?e\<lparr>val := x\<rparr>"]) simp
  qed
qed

lemma client_inserts_correct:
  assumes "hashmap_inv t" and "\<forall>a \<in> set ks. fst a \<noteq> NULL"
    and "\<forall>a \<in> set ks. \<forall>x \<in># mset (entries t). \<not> (hash x = fst (snd a) \<and> match_m t (fst a) (key x))"
    and "distinct_pairs (match_m t) (map (\<lambda>a. (fst a, fst (snd a))) ks)"
    and "unat (occupancy_m t) + length ks \<le> N" and "N + N div 4 < 2 ^ 31"
  shows "\<exists>t'. client_inserts t ks = Some t' \<and> hashmap_inv t' \<and> match_m t' = match_m t \<and>
    image_mset content (mset (entries t')) =
      image_mset content (mset (entries t)) + mset (map asked ks) \<and>
    unat (occupancy_m t') = unat (occupancy_m t) + length ks \<and>
    unat (capacity_m t') \<le> max (unat (capacity_m t)) (2 * (N + N div 4))"
  using assms
proof (induction ks arbitrary: t)
  case Nil
  then show ?case by simp
next
  case (Cons a ks)
  obtain k h v where a: "a = (k, h, v)" by (cases a)
  have k: "k \<noteq> NULL" using Cons.prems(2) a by simp
  have fresh: "\<forall>x \<in># mset (entries t). \<not> (hash x = h \<and> match_m t k (key x))"
    using Cons.prems(3) a by simp
  have b1: "Suc (unat (occupancy_m t)) \<le> N" using Cons.prems(5) by simp
  let ?next = "\<lambda>t' p. case v of None \<Rightarrow> t' | Some x \<Rightarrow> set_value t' p x"
  from client_step[OF Cons.prems(1) k fresh b1 Cons.prems(6), of v]
  obtain t' p e where s: "LookupOrInsert t k h = Some (t', p)" "hashmap_inv (?next t' p)"
    "mset (entries (?next t' p)) = add_mset e (mset (entries t))"
    "content e = asked (k, h, v)" "match_m (?next t' p) = match_m t"
    "unat (occupancy_m (?next t' p)) = Suc (unat (occupancy_m t))"
    "unat (capacity_m (?next t' p)) \<le> max (unat (capacity_m t)) (2 * (N + N div 4))"
    by blast
  let ?t2 = "?next t' p"
  have e: "key e = k" "hash e = h" using s(4) by (simp_all add: content_def asked_def)
  have eq: "equality_predicate (match_m t)"
    using Cons.prems(1) by (simp add: hashmap_inv_def hashmap_wf_def)
  have d: "\<forall>b \<in> set ks. \<not> (h = fst (snd b) \<and> match_m t k (fst b))"
    and d': "distinct_pairs (match_m t) (map (\<lambda>a. (fst a, fst (snd a))) ks)"
    using Cons.prems(4) a by (auto simp: distinct_pairs_def)
  have fresh2: "\<forall>b \<in> set ks. \<forall>x \<in># mset (entries ?t2).
      \<not> (hash x = fst (snd b) \<and> match_m ?t2 (fst b) (key x))"
  proof (intro ballI)
    fix b x assume b: "b \<in> set ks" and x: "x \<in># mset (entries ?t2)"
    from x have "x = e \<or> x \<in># mset (entries t)" unfolding s(3) by simp
    then show "\<not> (hash x = fst (snd b) \<and> match_m ?t2 (fst b) (key x))"
    proof
      assume "x = e"
      moreover have "\<not> (h = fst (snd b) \<and> match_m t (fst b) k)"
        using d b eq unfolding equality_predicate_def by blast
      ultimately show ?thesis using e s(5) by simp
    next
      assume "x \<in># mset (entries t)"
      then show ?thesis using Cons.prems(3) b s(5) by simp
    qed
  qed
  have "\<exists>t''. client_inserts ?t2 ks = Some t'' \<and> hashmap_inv t'' \<and> match_m t'' = match_m ?t2 \<and>
    image_mset content (mset (entries t'')) =
      image_mset content (mset (entries ?t2)) + mset (map asked ks) \<and>
    unat (occupancy_m t'') = unat (occupancy_m ?t2) + length ks \<and>
    unat (capacity_m t'') \<le> max (unat (capacity_m ?t2)) (2 * (N + N div 4))"
  proof (rule Cons.IH)
    show "hashmap_inv ?t2" by (rule s(2))
    show "\<forall>a \<in> set ks. fst a \<noteq> NULL" using Cons.prems(2) by simp
    show "\<forall>b \<in> set ks. \<forall>x \<in># mset (entries ?t2).
      \<not> (hash x = fst (snd b) \<and> match_m ?t2 (fst b) (key x))" by (rule fresh2)
    show "distinct_pairs (match_m ?t2) (map (\<lambda>a. (fst a, fst (snd a))) ks)"
      unfolding s(5) by (rule d')
    show "unat (occupancy_m ?t2) + length ks \<le> N" using s(6) Cons.prems(5) by simp
    show "N + N div 4 < 2 ^ 31" by (rule Cons.prems(6))
  qed
  then obtain t'' where t'': "client_inserts ?t2 ks = Some t''" "hashmap_inv t''"
    "match_m t'' = match_m ?t2"
    "image_mset content (mset (entries t'')) =
      image_mset content (mset (entries ?t2)) + mset (map asked ks)"
    "unat (occupancy_m t'') = unat (occupancy_m ?t2) + length ks"
    "unat (capacity_m t'') \<le> max (unat (capacity_m ?t2)) (2 * (N + N div 4))" by blast
  have run: "client_inserts t (a # ks) = Some t''" using s(1) t''(1) a by (cases v) simp_all
  have img: "image_mset content (mset (entries t'')) =
      image_mset content (mset (entries t)) + mset (map asked (a # ks))"
    unfolding t''(4) s(3) using s(4) a by simp
  have oc: "unat (occupancy_m t'') = unat (occupancy_m t) + length (a # ks)"
    using t''(5) s(6) by simp
  have cap: "unat (capacity_m t'') \<le> max (unat (capacity_m t)) (2 * (N + N div 4))"
    using t''(6) s(7) by simp
  show ?case using run t''(2) t''(3) s(5) img oc cap by simp
qed

lemma asked_found:
  assumes inv: "hashmap_inv t" and "c \<in># image_mset content (mset (entries t))"
  shows "\<exists>p. Lookup t (fst c) (fst (snd c)) = Some (Some p) \<and> content (map_m t ! p) = c"
proof -
  from assms(2) obtain e where e: "e \<in># mset (entries t)" "content e = c" by auto
  from Lookup_entry[OF inv e(1)] obtain j where j: "Probe t (key e) (hash e) = Some j"
    "map_m t ! j = e" by blast
  have "key e \<noteq> NULL" using e(1) by (simp add: entries_def)
  then have "Lookup t (key e) (hash e) = Some (Some j)" using j by (simp add: Lookup_def)
  moreover have "fst c = key e" "fst (snd c) = hash e" using e(2) by (auto simp: content_def)
  ultimately show ?thesis using j(2) e(2) by auto
qed

lemma distinct_pairs_distinct:
  assumes "distinct_pairs m ks" and "\<forall>a. m a a"
  shows "distinct ks"
  using assms(1) unfolding distinct_pairs_def
proof (induction ks)
  case Nil
  then show ?case by simp
next
  case (Cons a ks)
  then have "\<forall>b \<in> set ks. \<not> (snd a = snd b \<and> m (fst a) (fst b))" "distinct ks" by simp_all
  moreover have "snd a = snd a \<and> m (fst a) (fst a)" using assms(2) by simp
  ultimately show ?case by auto
qed

lemma distinct_pairs_PointersMatch: "distinct_pairs PointersMatch ks \<longleftrightarrow> distinct ks"
  unfolding distinct_pairs_def
  by (induction ks) (auto simp: PointersMatch_def prod_eq_iff)

lemma map_keys_none: "map (\<lambda>a. (fst a, fst (snd a))) (map (\<lambda>(k, h). (k, h, None)) ks) = ks"
  by (induction ks) auto

text \<open>
  C3, as stated, fails: the pairs \<open>(10, 0)\<close> and \<open>(10, 1)\<close> are distinct, and inserted into the
  table the constructor returns they make two entries, for one distinct key.
\<close>

theorem C3_counterexample:
  "HashMapImpl_new PointersMatch kDefaultHashMapCapacity = Some empty8 \<and>
   distinct [(10::ptr, 0::32 word), (10, 1)] \<and>
   map_option occupancy (insert_keys empty8 [(10, 0), (10, 1)]) = Some 2 \<and>
   card (fst ` set [(10::ptr, 0::32 word), (10, 1)]) = 1"
proof -
  have "map_option occupancy (insert_keys empty8 [(10, 0), (10, 1)]) = Some 2" by code_simp
  then show ?thesis using new_empty8 by simp
qed

text \<open>
  C3, amended. For every list of keys (not \<^verbatim>\<open>NULL\<close>) and hashes no two of which have the same
  hash and matching keys (for \<^verbatim>\<open>PointersMatch\<close>: pairwise distinct pairs), short enough for the
  capacity to fit 32 bits, \<^verbatim>\<open>LookupOrInsert\<close> called for each in turn from the table the
  constructor returned: every call returns, every key is then found by \<^verbatim>\<open>Lookup\<close> with its
  hash, and the occupancy is the number of pairs, which is the number of distinct keys when
  no key comes with two hashes.
\<close>

theorem C3_inserted_keys_found_and_counted:
  assumes "equality_predicate m" and "HashMapImpl_new m c = Some t0"
    and "\<forall>a \<in> set ks. fst a \<noteq> NULL" and "distinct_pairs m ks"
    and "length ks + length ks div 4 < 2 ^ 31"
  shows "\<exists>t. insert_keys t0 ks = Some t \<and>
    (\<forall>a \<in> set ks. \<exists>p. Lookup t (fst a) (snd a) = Some (Some p) \<and>
        key (map_m t ! p) = fst a \<and> hash (map_m t ! p) = snd a) \<and>
    unat (occupancy t) = length ks \<and> length ks = card (set ks) \<and>
    (inj_on fst (set ks) \<longrightarrow> unat (occupancy t) = card (fst ` set ks))"
proof -
  let ?ks = "map (\<lambda>(k, h). (k, h, None :: ptr option)) ks"
  from new_inv[OF assms(1,2)] have t0: "hashmap_inv t0" "entries t0 = []" "occupancy_m t0 = 0"
    "match_m t0 = m" by simp_all
  have h2: "\<forall>a \<in> set ?ks. fst a \<noteq> NULL" using assms(3) by auto
  have h3: "\<forall>a \<in> set ?ks. \<forall>x \<in># mset (entries t0).
      \<not> (hash x = fst (snd a) \<and> match_m t0 (fst a) (key x))" using t0(2) by simp
  have h4: "distinct_pairs (match_m t0) (map (\<lambda>a. (fst a, fst (snd a))) ?ks)"
    unfolding map_keys_none t0(4) by (rule assms(4))
  have h5: "unat (occupancy_m t0) + length ?ks \<le> length ks" using t0(3) by simp
  from client_inserts_correct[OF t0(1) h2 h3 h4 h5 assms(5)]
  obtain t where t: "client_inserts t0 ?ks = Some t" "hashmap_inv t"
    "image_mset content (mset (entries t)) =
      image_mset content (mset (entries t0)) + mset (map asked ?ks)"
    "unat (occupancy_m t) = unat (occupancy_m t0) + length ?ks" by blast
  have img: "image_mset content (mset (entries t)) = mset (map asked ?ks)"
    using t(3) t0(2) by simp
  have found: "\<forall>a \<in> set ks. \<exists>p. Lookup t (fst a) (snd a) = Some (Some p) \<and>
        key (map_m t ! p) = fst a \<and> hash (map_m t ! p) = snd a"
  proof
    fix a assume a: "a \<in> set ks"
    then have "(fst a, snd a, None) \<in> set ?ks" by force
    then have "asked (fst a, snd a, None) \<in># mset (map asked ?ks)" by (simp only: set_mset_mset set_map) blast
    then have "(fst a, snd a, NULL) \<in># image_mset content (mset (entries t))"
      unfolding img by (simp add: asked_def)
    from asked_found[OF t(2) this] show "\<exists>p. Lookup t (fst a) (snd a) = Some (Some p) \<and>
        key (map_m t ! p) = fst a \<and> hash (map_m t ! p) = snd a"
      by (auto simp: content_def)
  qed
  have oc: "unat (occupancy t) = length ks" using t(4) t0(3) by (simp add: occupancy_def)
  have "distinct ks" using assms(1,4) distinct_pairs_distinct unfolding equality_predicate_def by blast
  then have card: "length ks = card (set ks)" by (simp add: distinct_card)
  have "inj_on fst (set ks) \<longrightarrow> unat (occupancy t) = card (fst ` set ks)"
    using oc card by (simp add: card_image)
  with t(1) found oc card show ?thesis by (auto simp: insert_keys_def)
qed

theorem C3_witness:
  "equality_predicate PointersMatch \<and>
   HashMapImpl_new PointersMatch kDefaultHashMapCapacity = Some empty8 \<and>
   (10::ptr) \<noteq> NULL \<and> (11::ptr) \<noteq> NULL \<and> (12::ptr) \<noteq> NULL \<and>
   distinct_pairs PointersMatch abc_keys \<and>
   length abc_keys + length abc_keys div 4 < 2 ^ 31 \<and>
   (\<exists>t. insert_keys empty8 abc_keys = Some t \<and>
      (\<exists>p. Lookup t 10 0 = Some (Some p) \<and> key (map_m t ! p) = 10) \<and>
      (\<exists>p. Lookup t 11 8 = Some (Some p) \<and> key (map_m t ! p) = 11) \<and>
      (\<exists>p. Lookup t 12 16 = Some (Some p) \<and> key (map_m t ! p) = 12) \<and>
      unat (occupancy t) = 3)"
proof -
  have d: "distinct_pairs PointersMatch abc_keys"
    by (simp add: distinct_pairs_PointersMatch abc_keys_def)
  have n: "\<forall>a \<in> set abc_keys. fst a \<noteq> NULL" by (simp add: abc_keys_def)
  have l: "length abc_keys + length abc_keys div 4 < 2 ^ 31" by (simp add: abc_keys_def)
  from C3_inserted_keys_found_and_counted[OF equality_predicate_PointersMatch new_empty8 n d l]
  obtain t where t: "insert_keys empty8 abc_keys = Some t"
    "\<forall>a \<in> set abc_keys. \<exists>p. Lookup t (fst a) (snd a) = Some (Some p) \<and>
        key (map_m t ! p) = fst a \<and> hash (map_m t ! p) = snd a"
    "unat (occupancy t) = length abc_keys" by blast
  have "\<exists>p. Lookup t 10 0 = Some (Some p) \<and> key (map_m t ! p) = 10"
    using bspec[OF t(2), of "(10, 0)"] by (auto simp: abc_keys_def)
  moreover have "\<exists>p. Lookup t 11 8 = Some (Some p) \<and> key (map_m t ! p) = 11"
    using bspec[OF t(2), of "(11, 8)"] by (auto simp: abc_keys_def)
  moreover have "\<exists>p. Lookup t 12 16 = Some (Some p) \<and> key (map_m t ! p) = 12"
    using bspec[OF t(2), of "(12, 16)"] by (auto simp: abc_keys_def)
  moreover have "unat (occupancy t) = 3" using t(3) by (simp add: abc_keys_def)
  moreover have "(10::ptr) \<noteq> NULL" "(11::ptr) \<noteq> NULL" "(12::ptr) \<noteq> NULL" by simp_all
  ultimately show ?thesis
    using t(1) equality_predicate_PointersMatch new_empty8 d l by blast
qed

lemma IsPowerOfTwo32_16:
  assumes "IsPowerOfTwo32 w" and "8 < unat w" and "unat w \<le> 16"
  shows "w = 16"
proof -
  from assms(1) obtain n where n: "n < 32" "w = 2 ^ n" by (auto simp: IsPowerOfTwo32_def)
  then have u: "unat w = 2 ^ n" by (simp add: unat_2p32)
  have "(2::nat) ^ 3 < 2 ^ n" using assms(2) u by simp
  then have "3 < n" by (simp only: power_strict_increasing_iff one_less_numeral_iff semiring_norm)
  moreover have "(2::nat) ^ n \<le> 2 ^ 4" using assms(3) u by simp
  then have "n \<le> 4" by (simp only: power_increasing_iff one_less_numeral_iff semiring_norm)
  ultimately have "n = 4" by simp
  with n show ?thesis by simp
qed

text \<open>
  C5. When an insertion triggers growth (the key is new, the growth test holds of the table
  with the new entry, and the capacity is at most \<open>2 ^ 30\<close>, so that its double fits 32 bits):
  \<^verbatim>\<open>Resize\<close> returns a table of exactly twice the capacity, again a power of two, whose
  entries are the entries of the table before the resize, with their keys, hashes, values
  and orders, and no others; \<^verbatim>\<open>Lookup\<close> finds each of them under its key and hash; and
  \<^verbatim>\<open>LookupOrInsert\<close> returns this table. In particular seven insertions of distinct keys
  (with values written or not) into a table constructed with capacity 8 leave the capacity
  16, and each key is found with its value.
\<close>

theorem C5_growth_doubles_and_keeps_entries:
  "(hashmap_inv t \<and> k \<noteq> NULL \<and>
      (\<forall>x \<in># mset (entries t). \<not> (hash x = h \<and> match_m t k (key x))) \<and>
      grow_trigger (occupancy_m t + 1) (capacity_m t) \<and> unat (capacity_m t) \<le> 2 ^ 30 \<longrightarrow>
    (\<exists>q t' p. Probe t k h = Some q \<and> Resize (insert_at t q k h) = Some t' \<and>
       LookupOrInsert t k h = Some (t', p) \<and>
       capacity_m t' = capacity_m t * 2 \<and> unat (capacity_m t') = 2 * unat (capacity_m t) \<and>
       IsPowerOfTwo32 (capacity_m t') \<and>
       mset (entries t') = mset (entries (insert_at t q k h)) \<and>
       (\<forall>e \<in># mset (entries (insert_at t q k h)).
          \<exists>j. Lookup t' (key e) (hash e) = Some (Some j) \<and> map_m t' ! j = e))) \<and>
   (\<forall>m t0 ks. equality_predicate m \<and> HashMapImpl_new m 8 = Some t0 \<and> length ks = 7 \<and>
      (\<forall>a \<in> set ks. fst a \<noteq> NULL) \<and>
      distinct_pairs m (map (\<lambda>a. (fst a, fst (snd a))) ks) \<longrightarrow>
      (\<exists>t. client_inserts t0 ks = Some t \<and> capacity_m t = 16 \<and>
         (\<forall>a \<in> set ks. \<exists>p. Lookup t (fst a) (fst (snd a)) = Some (Some p) \<and>
            content (map_m t ! p) = asked a)))"
proof (intro conjI impI allI)
  assume a: "hashmap_inv t \<and> k \<noteq> NULL \<and>
      (\<forall>x \<in># mset (entries t). \<not> (hash x = h \<and> match_m t k (key x))) \<and>
      grow_trigger (occupancy_m t + 1) (capacity_m t) \<and> unat (capacity_m t) \<le> 2 ^ 30"
  then have inv: "hashmap_inv t" and k: "k \<noteq> NULL"
    and fresh: "\<forall>x \<in># mset (entries t). \<not> (hash x = h \<and> match_m t k (key x))"
    and g: "grow_trigger (occupancy_m t + 1) (capacity_m t)"
    and cap: "unat (capacity_m t) \<le> 2 ^ 30" by simp_all
  have wf: "hashmap_wf t" and lt: "occupancy_m t < capacity_m t"
    using inv by (simp_all add: hashmap_inv_def load_ok_less)
  have p2: "IsPowerOfTwo32 (capacity_m t)" using wf by (simp add: hashmap_wf_def)
  from probe_absent[OF wf lt k fresh]
  obtain q where q: "Probe t k h = Some q" "q < unat (capacity_m t)" "key (map_m t ! q) = NULL"
    by blast
  let ?t1 = "insert_at t q k h"
  have wf1: "hashmap_wf ?t1"
    unfolding insert_at_place using wf lt q(2,3) k probe_empty(2)[OF wf lt k q(1,3)] fresh
    by (intro wf_place) simp_all
  have cap1: "unat (capacity_m ?t1) \<le> 2 ^ 30" using cap by (simp add: insert_at_def)
  from Resize_correct[OF wf1 cap1] obtain t' where t': "Resize ?t1 = Some t'" "hashmap_inv t'"
    "mset (entries t') = mset (entries ?t1)" "capacity_m t' = capacity_m ?t1 * 2" by blast
  have c: "capacity_m t' = capacity_m t * 2" using t'(4) by (simp add: insert_at_def)
  note d = IsPowerOfTwo32_double[OF p2 cap]
  have found: "\<forall>e \<in># mset (entries ?t1).
      \<exists>j. Lookup t' (key e) (hash e) = Some (Some j) \<and> map_m t' ! j = e"
  proof
    fix e assume "e \<in># mset (entries ?t1)"
    then have e: "e \<in># mset (entries t')" using t'(3) by simp
    from Lookup_entry[OF t'(2) e] obtain j where j: "Probe t' (key e) (hash e) = Some j"
      "map_m t' ! j = e" by blast
    have "key e \<noteq> NULL" using e by (simp add: entries_def)
    then have "Lookup t' (key e) (hash e) = Some (Some j)" using j by (simp add: Lookup_def)
    with j(2) show "\<exists>j. Lookup t' (key e) (hash e) = Some (Some j) \<and> map_m t' ! j = e" by blast
  qed
  have "\<lparr>key = k, val = NULL, hash = h, order = sint (occupancy_m t)\<rparr> \<in># mset (entries ?t1)"
    using q(2,3) k wf entries_place[of q t "\<lparr>key = k, val = NULL, hash = h, order = sint (occupancy_m t)\<rparr>"]
    by (simp add: insert_at_place hashmap_wf_def)
  from bspec[OF found this] obtain p where p: "Probe t' k h = Some p"
    by (auto simp: Lookup_def split: bind_splits)
  have "LookupOrInsert t k h = Some (t', p)"
    using LookupOrInsert_grow[OF q(1,3) g] t'(1) p by simp
  with q(1) t'(1,3) c d found show "\<exists>q t' p. Probe t k h = Some q \<and>
       Resize (insert_at t q k h) = Some t' \<and>
       LookupOrInsert t k h = Some (t', p) \<and>
       capacity_m t' = capacity_m t * 2 \<and> unat (capacity_m t') = 2 * unat (capacity_m t) \<and>
       IsPowerOfTwo32 (capacity_m t') \<and>
       mset (entries t') = mset (entries (insert_at t q k h)) \<and>
       (\<forall>e \<in># mset (entries (insert_at t q k h)).
          \<exists>j. Lookup t' (key e) (hash e) = Some (Some j) \<and> map_m t' ! j = e)"
    by (intro exI[of _ q] exI[of _ t'] exI[of _ p]) simp
next
  fix m t0 and ks :: "(ptr \<times> 32 word \<times> ptr option) list"
  assume a: "equality_predicate m \<and> HashMapImpl_new m 8 = Some t0 \<and> length ks = 7 \<and>
      (\<forall>a \<in> set ks. fst a \<noteq> NULL) \<and>
      distinct_pairs m (map (\<lambda>a. (fst a, fst (snd a))) ks)"
  then have eq: "equality_predicate m" and new: "HashMapImpl_new m 8 = Some t0"
    and len: "length ks = 7" and keys: "\<forall>a \<in> set ks. fst a \<noteq> NULL"
    and dist: "distinct_pairs m (map (\<lambda>a. (fst a, fst (snd a))) ks)" by simp_all
  from new_inv[OF eq new] have t0: "hashmap_inv t0" "entries t0 = []" "occupancy_m t0 = 0"
    "match_m t0 = m" "capacity_m t0 = 8" by simp_all
  have h3: "\<forall>a \<in> set ks. \<forall>x \<in># mset (entries t0).
      \<not> (hash x = fst (snd a) \<and> match_m t0 (fst a) (key x))" using t0(2) by simp
  have h4: "distinct_pairs (match_m t0) (map (\<lambda>a. (fst a, fst (snd a))) ks)"
    unfolding t0(4) by (rule dist)
  have h5: "unat (occupancy_m t0) + length ks \<le> 7" using t0(3) len by simp
  have h6: "(7::nat) + 7 div 4 < 2 ^ 31" by simp
  from client_inserts_correct[OF t0(1) keys h3 h4 h5 h6]
  obtain t where t: "client_inserts t0 ks = Some t" "hashmap_inv t"
    "image_mset content (mset (entries t)) =
      image_mset content (mset (entries t0)) + mset (map asked ks)"
    "unat (occupancy_m t) = unat (occupancy_m t0) + length ks"
    "unat (capacity_m t) \<le> max (unat (capacity_m t0)) (2 * (7 + 7 div 4))" by blast
  have oc: "unat (occupancy_m t) = 7" using t(4) t0(3) len by simp
  have "load_ok t" "IsPowerOfTwo32 (capacity_m t)"
    using t(2) by (simp_all add: hashmap_inv_def hashmap_wf_def)
  then have "8 < unat (capacity_m t)" using oc by (simp add: load_ok_def)
  moreover have "unat (capacity_m t) \<le> 16" using t(5) t0(5) by simp
  ultimately have c16: "capacity_m t = 16"
    using \<open>IsPowerOfTwo32 (capacity_m t)\<close> by (intro IsPowerOfTwo32_16)
  have img: "image_mset content (mset (entries t)) = mset (map asked ks)"
    using t(3) t0(2) by simp
  have found: "\<forall>a \<in> set ks. \<exists>p. Lookup t (fst a) (fst (snd a)) = Some (Some p) \<and>
            content (map_m t ! p) = asked a"
  proof
    fix a assume "a \<in> set ks"
    then have "asked a \<in># image_mset content (mset (entries t))" unfolding img by simp
    from asked_found[OF t(2) this] show "\<exists>p. Lookup t (fst a) (fst (snd a)) = Some (Some p) \<and>
            content (map_m t ! p) = asked a" by (simp add: asked_def)
  qed
  with t(1) c16 show "\<exists>t. client_inserts t0 ks = Some t \<and> capacity_m t = 16 \<and>
         (\<forall>a \<in> set ks. \<exists>p. Lookup t (fst a) (fst (snd a)) = Some (Some p) \<and>
            content (map_m t ! p) = asked a)" by blast
qed

lemma six_reach: "all_reachable (capacity_m six_table) (map_m six_table)"
  by code_simp

lemma six_unique: "unique_keys PointersMatch (mset (entries six_table))"
  by code_simp

lemma six_count: "unat (occupancy_m six_table) = length (entries six_table)"
  by code_simp

lemma six_inv: "hashmap_inv six_table"
proof -
  have "match_m six_table = PointersMatch" "capacity_m six_table = 8"
    "length (map_m six_table) = 8" "occupancy_m six_table = 6"
    by (simp_all add: six_table_def)
  then show ?thesis
    using six_reach six_unique six_count equality_predicate_PointersMatch IsPowerOfTwo32_8
    by (simp add: hashmap_inv_def hashmap_wf_def load_ok_def)
qed

lemma six_fresh_16:
  "\<forall>x \<in># mset (entries six_table). \<not> (hash x = 4 \<and> match_m six_table 16 (key x))"
  by code_simp

lemma six_trigger: "grow_trigger (occupancy_m six_table + 1) (capacity_m six_table)"
  by code_simp

lemma new_empty8': "HashMapImpl_new PointersMatch 8 = Some empty8"
  using new_empty8 by (simp add: kDefaultHashMapCapacity_def)

lemma seven_distinct:
  "distinct_pairs PointersMatch (map (\<lambda>a. (fst a, fst (snd a))) seven_inserts)"
  by (simp add: distinct_pairs_PointersMatch seven_inserts_def)

theorem C5_witness:
  "hashmap_inv six_table \<and> (16::ptr) \<noteq> NULL \<and>
   grow_trigger (occupancy_m six_table + 1) (capacity_m six_table) \<and>
   unat (capacity_m six_table) \<le> 2 ^ 30 \<and>
   (\<exists>q t' p. Probe six_table 16 4 = Some q \<and> Resize (insert_at six_table q 16 4) = Some t' \<and>
      LookupOrInsert six_table 16 4 = Some (t', p) \<and> capacity_m t' = 16 \<and>
      mset (entries t') = mset (entries (insert_at six_table q 16 4)) \<and>
      (\<forall>e \<in># mset (entries (insert_at six_table q 16 4)).
          \<exists>j. Lookup t' (key e) (hash e) = Some (Some j) \<and> map_m t' ! j = e)) \<and>
   equality_predicate PointersMatch \<and> HashMapImpl_new PointersMatch 8 = Some empty8 \<and>
   length seven_inserts = 7 \<and>
   (\<exists>t. client_inserts empty8 seven_inserts = Some t \<and> capacity_m t = 16 \<and>
      (\<exists>p. Lookup t 10 0 = Some (Some p) \<and> content (map_m t ! p) = (10, 0, 100)) \<and>
      (\<exists>p. Lookup t 12 16 = Some (Some p) \<and> content (map_m t ! p) = (12, 16, NULL)) \<and>
      (\<exists>p. Lookup t 16 4 = Some (Some p) \<and> content (map_m t ! p) = (16, 4, 106)))"
proof -
  have n: "(16::ptr) \<noteq> NULL" by simp
  have c: "unat (capacity_m six_table) \<le> 2 ^ 30" "capacity_m six_table * 2 = 16"
    by (simp_all add: six_table_def)
  have l: "length seven_inserts = 7" by (simp add: seven_inserts_def)
  have k: "\<forall>a \<in> set seven_inserts. fst a \<noteq> NULL" by (simp add: seven_inserts_def)
  note g = C5_growth_doubles_and_keeps_entries[of six_table 16 4, THEN conjunct1, rule_format]
  have "\<exists>q t' p. Probe six_table 16 4 = Some q \<and> Resize (insert_at six_table q 16 4) = Some t' \<and>
      LookupOrInsert six_table 16 4 = Some (t', p) \<and> capacity_m t' = 16 \<and>
      mset (entries t') = mset (entries (insert_at six_table q 16 4)) \<and>
      (\<forall>e \<in># mset (entries (insert_at six_table q 16 4)).
          \<exists>j. Lookup t' (key e) (hash e) = Some (Some j) \<and> map_m t' ! j = e)"
    using g six_inv n six_fresh_16 six_trigger c by (simp only:) blast
  moreover
  note s = C5_growth_doubles_and_keeps_entries[of six_table 16 4, THEN conjunct2, rule_format,
      of PointersMatch empty8 seven_inserts]
  have "\<exists>t. client_inserts empty8 seven_inserts = Some t \<and> capacity_m t = 16 \<and>
         (\<forall>a \<in> set seven_inserts. \<exists>p. Lookup t (fst a) (fst (snd a)) = Some (Some p) \<and>
            content (map_m t ! p) = asked a)"
    using s equality_predicate_PointersMatch new_empty8' l k seven_distinct by blast
  then obtain t where t: "client_inserts empty8 seven_inserts = Some t" "capacity_m t = 16"
    "\<forall>a \<in> set seven_inserts. \<exists>p. Lookup t (fst a) (fst (snd a)) = Some (Some p) \<and>
            content (map_m t ! p) = asked a" by blast
  have "\<exists>p. Lookup t 10 0 = Some (Some p) \<and> content (map_m t ! p) = (10, 0, 100)"
    using bspec[OF t(3), of "(10, 0, Some 100)"] by (simp add: seven_inserts_def asked_def)
  moreover have "\<exists>p. Lookup t 12 16 = Some (Some p) \<and> content (map_m t ! p) = (12, 16, NULL)"
    using bspec[OF t(3), of "(12, 16, None)"] by (simp add: seven_inserts_def asked_def)
  moreover have "\<exists>p. Lookup t 16 4 = Some (Some p) \<and> content (map_m t ! p) = (16, 4, 106)"
    using bspec[OF t(3), of "(16, 4, Some 106)"] by (simp add: seven_inserts_def asked_def)
  ultimately show ?thesis
    using t(1,2) six_inv n six_trigger c(1) equality_predicate_PointersMatch new_empty8' l
    by blast
qed

section \<open>The example tables\<close>

text \<open>The example tables are the tables that insertions into the table of the constructor
  build.\<close>

lemma empty8_inv: "hashmap_inv empty8"
  using reach_empty8 by (rule reach_table_inv)

lemma empty8_entries: "entries empty8 = []"
  by code_simp

lemma client_inserts_from_empty8:
  assumes "\<forall>a \<in> set ks. fst a \<noteq> NULL"
    and "distinct (map (\<lambda>a. (fst a, fst (snd a))) ks)"
    and "length ks + length ks div 4 < 2 ^ 31"
  shows "\<exists>t. client_inserts empty8 ks = Some t \<and> match_m t = PointersMatch"
proof -
  have m: "match_m empty8 = PointersMatch" by (simp add: empty8_def)
  have o: "occupancy_m empty8 = 0" by (simp add: empty8_def)
  have h3: "\<forall>a \<in> set ks. \<forall>x \<in># mset (entries empty8).
      \<not> (hash x = fst (snd a) \<and> match_m empty8 (fst a) (key x))"
    unfolding empty8_entries by simp
  have h4: "distinct_pairs (match_m empty8) (map (\<lambda>a. (fst a, fst (snd a))) ks)"
    unfolding m distinct_pairs_PointersMatch by (rule assms(2))
  have h5: "unat (occupancy_m empty8) + length ks \<le> length ks" unfolding o by simp
  from client_inserts_correct[OF empty8_inv assms(1) h3 h4 h5 assms(3)]
  obtain t' where "client_inserts empty8 ks = Some t'" "match_m t' = match_m empty8" by blast
  then show ?thesis unfolding m by blast
qed


lemma built_eqI:
  assumes "client_inserts empty8 ks = Some t" and "match_m t = PointersMatch"
    and "map_option map_m (client_inserts empty8 ks) = Some (map_m t')"
    and "map_option capacity_m (client_inserts empty8 ks) = Some (capacity_m t')"
    and "map_option occupancy_m (client_inserts empty8 ks) = Some (occupancy_m t')"
    and "match_m t' = PointersMatch"
  shows "client_inserts empty8 ks = Some t'"
proof -
  have "map_m t = map_m t'" "capacity_m t = capacity_m t'" "occupancy_m t = occupancy_m t'"
    using assms(1,3,4,5) by simp_all
  then have "t = t'" using assms(2,6) by (intro HashMapImpl.equality) simp_all
  with assms(1) show ?thesis by simp
qed

lemma abc_built:
  "client_inserts empty8 [(10, 0, Some 100), (11, 8, None), (12, 16, Some 102)] = Some abc_table"
proof -
  let ?ks = "[(10, 0, Some 100), (11, 8, None), (12, 16, Some 102)] :: (ptr \<times> 32 word \<times> ptr option) list"
  have "\<forall>a \<in> set ?ks. fst a \<noteq> NULL" by simp
  moreover have "distinct (map (\<lambda>a. (fst a, fst (snd a))) ?ks)" by simp
  moreover have "length ?ks + length ?ks div 4 < 2 ^ 31" by simp
  ultimately have "\<exists>t. client_inserts empty8 ?ks = Some t \<and> match_m t = PointersMatch"
    by (rule client_inserts_from_empty8)
  then obtain t where t: "client_inserts empty8 ?ks = Some t" "match_m t = PointersMatch" by blast
  have c1: "map_option map_m (client_inserts empty8 ?ks) = Some (map_m abc_table)" by code_simp
  have c2: "map_option capacity_m (client_inserts empty8 ?ks) = Some (capacity_m abc_table)" by code_simp
  have c3: "map_option occupancy_m (client_inserts empty8 ?ks) = Some (occupancy_m abc_table)" by code_simp
  have c4: "match_m abc_table = PointersMatch" by (simp add: abc_table_def)
  from t c1 c2 c3 c4 show ?thesis by (rule built_eqI)
qed

lemma six_built:
  "client_inserts empty8 [(10, 0, Some 100), (11, 8, Some 101), (12, 16, None), (13, 1, Some 103),
      (14, 2, Some 104), (15, 3, Some 105)] = Some six_table"
proof -
  let ?ks = "[(10, 0, Some 100), (11, 8, Some 101), (12, 16, None), (13, 1, Some 103),
      (14, 2, Some 104), (15, 3, Some 105)] :: (ptr \<times> 32 word \<times> ptr option) list"
  have "\<forall>a \<in> set ?ks. fst a \<noteq> NULL" by simp
  moreover have "distinct (map (\<lambda>a. (fst a, fst (snd a))) ?ks)" by simp
  moreover have "length ?ks + length ?ks div 4 < 2 ^ 31" by simp
  ultimately have "\<exists>t. client_inserts empty8 ?ks = Some t \<and> match_m t = PointersMatch"
    by (rule client_inserts_from_empty8)
  then obtain t where t: "client_inserts empty8 ?ks = Some t" "match_m t = PointersMatch" by blast
  have c1: "map_option map_m (client_inserts empty8 ?ks) = Some (map_m six_table)" by code_simp
  have c2: "map_option capacity_m (client_inserts empty8 ?ks) = Some (capacity_m six_table)" by code_simp
  have c3: "map_option occupancy_m (client_inserts empty8 ?ks) = Some (occupancy_m six_table)" by code_simp
  have c4: "match_m six_table = PointersMatch" by (simp add: six_table_def)
  from t c1 c2 c3 c4 show ?thesis by (rule built_eqI)
qed


lemma two_at_home_built:
  "map_option map_m (insert_keys empty8 [(10, 0), (11, 1)]) = Some two_at_home"
  by code_simp

lemma two_colliding_built:
  "map_option map_m (insert_keys empty8 [(10, 0), (11, 8)]) = Some two_colliding"
  by code_simp

end
